theory Spec2Isabelle
  imports Main "HOL-Library.Sublist" "HOL-Library.Code_Target_Nat"
begin

section \<open>Text\<close>

text \<open>
  A Python \<open>str\<close> is a sequence of Unicode code points, so the transcript is a list of
  code points. \<open>str\<close> turns a literal into its code points; code points beyond Latin-1
  are written as numbers.
\<close>

type_synonym codepoint = nat
type_synonym pystr = "codepoint list"

definition str :: "string \<Rightarrow> pystr" where
  "str s = map of_char s"

definition NL :: codepoint where
  "NL = 10"

text \<open>\<open>needle in hay\<close>: the needle occurs as a contiguous run of the hay.\<close>

definition py_in :: "pystr \<Rightarrow> pystr \<Rightarrow> bool" where
  "py_in needle hay = sublist needle hay"

text \<open>\<open>context.split('\n')\<close>: always at least one line, lines in order.\<close>

fun split_lines :: "pystr \<Rightarrow> pystr list" where
  "split_lines [] = [[]]"
| "split_lines (c # cs) =
     (if c = NL then [] # split_lines cs
      else (case split_lines cs of [] \<Rightarrow> [[c]] | l # ls \<Rightarrow> (c # l) # ls))"

text \<open>\<open>'\n'.join(xs)\<close>.\<close>

fun join_lines :: "pystr list \<Rightarrow> pystr" where
  "join_lines [] = []"
| "join_lines [x] = x"
| "join_lines (x # y # zs) = x @ NL # join_lines (y # zs)"

text \<open>\<open>xs[a:b]\<close> for \<open>0 \<le> a\<close>, \<open>0 \<le> b\<close>.\<close>

definition slice :: "'a list \<Rightarrow> nat \<Rightarrow> nat \<Rightarrow> 'a list" where
  "slice xs a b = take (b - a) (drop a xs)"

text \<open>
  \<open>s.lower()\<close>. The mapping is exact on the code points below 256, on U+0130 (whose
  lowercase is \<open>i\<close> followed by U+0307) and on U+212A (the Kelvin sign, whose lowercase is
  \<open>k\<close>). Every other code point has a lowercase made of code points from 128 upwards; it
  is left as it is, which no test against an ASCII phrase can tell apart.
\<close>

definition lower_cp :: "codepoint \<Rightarrow> pystr" where
  "lower_cp c =
     (if 65 \<le> c \<and> c \<le> 90 then [c + 32]
      else if 192 \<le> c \<and> c \<le> 222 \<and> c \<noteq> 215 then [c + 32]
      else if c = 304 then [105, 775]
      else if c = 8490 then [107]
      else [c])"

definition lower :: "pystr \<Rightarrow> pystr" where
  "lower s = concat (map lower_cp s)"

text \<open>The decimal digits of a count, as an f-string prints an \<open>int\<close>.\<close>

fun decimal :: "nat \<Rightarrow> pystr" where
  "decimal n = (if n < 10 then [48 + n] else decimal (n div 10) @ [48 + n mod 10])"

declare decimal.simps [simp del]

section \<open>Regular expressions\<close>

text \<open>
  The patterns of the program use literals, alternation, character classes, a greedy
  class repetition with a lower bound (\<open>[..]*\<close>, \<open>[..]{4,}\<close>), a greedy bounded repetition
  of a group (\<open>(?:..){0,2}\<close>) and one capturing group. \<open>LitI\<close> is a literal compiled under
  \<open>re.I\<close>.
\<close>

datatype charset = Chars "(codepoint \<times> codepoint) list" | NotChars "(codepoint \<times> codepoint) list"

datatype regex =
    Lit pystr
  | LitI pystr
  | Set charset
  | Many nat charset
  | Seq regex regex
  | Alt regex regex
  | UpTo nat regex
  | Group regex

definition in_ranges :: "codepoint \<Rightarrow> (codepoint \<times> codepoint) list \<Rightarrow> bool" where
  "in_ranges c rs = list_ex (\<lambda>(lo, hi). lo \<le> c \<and> c \<le> hi) rs"

fun in_charset :: "charset \<Rightarrow> codepoint \<Rightarrow> bool" where
  "in_charset (Chars rs) c = in_ranges c rs"
| "in_charset (NotChars rs) c = (\<not> in_ranges c rs)"

text \<open>
  Which code points of the text a pattern character matches under \<open>re.I\<close>. The pattern
  characters of this program are lowercase ASCII letters, the space and the apostrophe.
  A letter matches itself, its capital, and the code points that the \<open>re\<close> module folds
  onto it: U+0130 and U+0131 onto \<open>i\<close>, U+017F onto \<open>s\<close>, U+212A onto \<open>k\<close>.
\<close>

definition ignorecase_eq :: "codepoint \<Rightarrow> codepoint \<Rightarrow> bool" where
  "ignorecase_eq p c =
     (c = p \<or> (97 \<le> p \<and> p \<le> 122 \<and>
        (c + 32 = p \<or> (p = 105 \<and> (c = 304 \<or> c = 305)) \<or> (p = 115 \<and> c = 383)
          \<or> (p = 107 \<and> c = 8490))))"

fun lit_match :: "(codepoint \<Rightarrow> codepoint \<Rightarrow> bool) \<Rightarrow> pystr \<Rightarrow> pystr \<Rightarrow> pystr option" where
  "lit_match eq [] s = Some s"
| "lit_match eq (p # ps) [] = None"
| "lit_match eq (p # ps) (c # cs) = (if eq p c then lit_match eq ps cs else None)"

text \<open>
  \<open>run r s\<close> lists every way \<open>r\<close> matches a prefix of \<open>s\<close>, in the order in which the
  backtracking matcher tries them: the captured groups and the text left over. A greedy
  repetition tries the longest run first. (No pattern here has a group inside a
  repetition, nor a repeated group that can match the empty text.)
\<close>

fun weight :: "regex \<Rightarrow> nat" where
  "weight (Seq a b) = Suc (weight a + weight b)"
| "weight (Alt a b) = Suc (weight a + weight b)"
| "weight (UpTo n a) = Suc (n + weight a)"
| "weight (Group a) = Suc (weight a)"
| "weight _ = 0"

function run :: "regex \<Rightarrow> pystr \<Rightarrow> (pystr list \<times> pystr) list" where
  "run (Lit p) s = (case lit_match (=) p s of None \<Rightarrow> [] | Some r \<Rightarrow> [([], r)])"
| "run (LitI p) s = (case lit_match ignorecase_eq p s of None \<Rightarrow> [] | Some r \<Rightarrow> [([], r)])"
| "run (Set cs) s = (case s of [] \<Rightarrow> [] | c # r \<Rightarrow> if in_charset cs c then [([], r)] else [])"
| "run (Many n cs) s =
     map (\<lambda>k. ([], drop k s)) (rev [n ..< Suc (length (takeWhile (in_charset cs) s))])"
| "run (Seq a b) s =
     concat (map (\<lambda>(g, r). map (\<lambda>(g', r'). (g @ g', r')) (run b r)) (run a s))"
| "run (Alt a b) s = run a s @ run b s"
| "run (UpTo 0 a) s = [([], s)]"
| "run (UpTo (Suc n) a) s =
     concat (map (\<lambda>(g, r). map (\<lambda>(g', r'). (g @ g', r')) (run (UpTo n a) r)) (run a s))
     @ [([], s)]"
| "run (Group a) s = map (\<lambda>(g, r). (take (length s - length r) s # g, r)) (run a s)"
  by pat_completeness auto
termination
  by (relation "measure (\<lambda>(r, s). weight r)") auto

declare run.simps [simp del]

text \<open>
  The first match at the start of \<open>s\<close>. After an empty match the scanner asks for a match
  that advances (\<open>must_advance\<close>).
\<close>

definition first_match :: "regex \<Rightarrow> bool \<Rightarrow> pystr \<Rightarrow> (pystr list \<times> pystr) option" where
  "first_match r must_advance s =
     (case filter (\<lambda>(g, rest). \<not> must_advance \<or> length rest < length s) (run r s) of
        [] \<Rightarrow> None
      | m # _ \<Rightarrow> Some m)"

lemma first_match_advances:
  assumes "first_match r True s = Some (g, rest)"
  shows "length rest < length s"
proof -
  from assms obtain ms where
    "filter (\<lambda>(g, rest). length rest < length s) (run r s) = (g, rest) # ms"
    by (auto simp: first_match_def split: list.splits)
  then have "(g, rest) \<in> set (filter (\<lambda>(g, rest). length rest < length s) (run r s))"
    by simp
  then show ?thesis by simp
qed

text \<open>
  \<open>re.findall\<close>: the matches from left to right, none overlapping; each is reported as
  the text of group 1 when the pattern has a group, as the whole match otherwise.
\<close>

function findall_from :: "regex \<Rightarrow> bool \<Rightarrow> pystr \<Rightarrow> pystr list" where
  "findall_from r must_advance s =
     (case first_match r must_advance s of
        None \<Rightarrow> (case s of [] \<Rightarrow> [] | c # t \<Rightarrow> findall_from r False t)
      | Some (g, rest) \<Rightarrow>
          (case g of [] \<Rightarrow> take (length s - length rest) s | x # _ \<Rightarrow> x)
          # (if length rest < length s then findall_from r False rest
             else findall_from r True s))"
  by pat_completeness auto

termination
proof (relation "measures [\<lambda>(r, adv, s). length s, \<lambda>(r, adv, s). if adv then 0 else 1]",
    goal_cases)
  case 1
  show ?case by simp
next
  case (2 r must_advance s c t)
  then show ?case by simp
next
  case (3 r must_advance s x2 g rest)
  then show ?case by simp
next
  case (4 r must_advance s x2 g rest)
  then have "\<not> must_advance"
    using first_match_advances [of r s g rest] by (cases must_advance) auto
  then show ?case by simp
qed

declare findall_from.simps [simp del]

definition findall :: "regex \<Rightarrow> pystr \<Rightarrow> pystr list" where
  "findall r s = findall_from r False s"

section \<open>Pattern extraction\<close>

text \<open>The classes \<open>[^\n.]\<close>, \<open>[\n.]\<close> and \<open>[A-Z !]\<close>.\<close>

definition not_nl_dot :: charset where
  "not_nl_dot = NotChars [(10, 10), (46, 46)]"

definition nl_dot :: charset where
  "nl_dot = Chars [(10, 10), (46, 46)]"

definition caps_space_bang :: charset where
  "caps_space_bang = Chars [(65, 90), (32, 32), (33, 33)]"

text \<open>\<open>a|b|c\<close>, the leftmost alternative first.\<close>

fun alts :: "regex list \<Rightarrow> regex" where
  "alts [] = Set (Chars [])"
| "alts [r] = r"
| "alts (r # rs) = Alt r (alts rs)"

text \<open>\<open>(?:error|exception|failed|failure)[^\n.]*[\n.][^\n.]*\<close> under \<open>re.I\<close>.\<close>

definition error_vocabulary :: regex where
  "error_vocabulary =
     alts [LitI (str ''error''), LitI (str ''exception''), LitI (str ''failed''),
           LitI (str ''failure'')]"

definition error_pattern :: regex where
  "error_pattern =
     Seq error_vocabulary (Seq (Many 0 not_nl_dot) (Seq (Set nl_dot) (Many 0 not_nl_dot)))"

text \<open>\<open>([A-Z !]{4,}|(?:damn|shit|fuck|crap))[^\n.]*\<close>, case-sensitive.\<close>

definition frustration_pattern :: regex where
  "frustration_pattern =
     Seq (Group (Alt (Many 4 caps_space_bang)
                     (alts [Lit (str ''damn''), Lit (str ''shit''), Lit (str ''fuck''),
                            Lit (str ''crap'')])))
         (Many 0 not_nl_dot)"

text \<open>The tail \<open>[^\n.]*(?:[\n.][^\n.]*){0,2}\<close> of the three solution patterns.\<close>

definition two_more :: regex where
  "two_more = Seq (Many 0 not_nl_dot) (UpTo 2 (Seq (Set nl_dot) (Many 0 not_nl_dot)))"

definition solved_vocabulary :: regex where
  "solved_vocabulary =
     alts [LitI (str ''that worked''), LitI (str ''fixed''), LitI (str ''solved'')]"

definition solution_patterns :: "(regex \<times> pystr) list" where
  "solution_patterns =
     [(Seq solved_vocabulary two_more, str ''SOLVED''),
      (Seq (alts [LitI (str ''let's try''), LitI (str ''try something''),
                  LitI (str ''different approach'')]) two_more, str ''??''),
      (Seq (alts [LitI (str ''this might''), LitI (str ''maybe''),
                  LitI (str ''could try'')]) two_more, str ''?'')]"

definition errors_in :: "pystr \<Rightarrow> pystr list" where
  "errors_in context = findall error_pattern context"

definition frustration_in :: "pystr \<Rightarrow> pystr list" where
  "frustration_in context = findall frustration_pattern context"

text \<open>
  The loop over \<open>solution_patterns\<close>: a match of a pattern whose prefix is \<open>??\<close> or \<open>?\<close>
  goes to \<open>ambiguous\<close> with its prefix, any other to \<open>solutions\<close>.
\<close>

definition is_ambiguous_prefix :: "pystr \<Rightarrow> bool" where
  "is_ambiguous_prefix prefix' = (prefix' \<in> set [str ''??'', str ''?''])"

definition solutions_in :: "pystr \<Rightarrow> pystr list" where
  "solutions_in context =
     concat (map (\<lambda>(pattern, prefix').
        if is_ambiguous_prefix prefix' then [] else findall pattern context) solution_patterns)"

definition ambiguous_in :: "pystr \<Rightarrow> (pystr \<times> pystr) list" where
  "ambiguous_in context =
     concat (map (\<lambda>(pattern, prefix').
        if is_ambiguous_prefix prefix' then map (Pair prefix') (findall pattern context) else [])
        solution_patterns)"

text \<open>
  \<open>Counter(errors).most_common()\<close>: the distinct texts in the order of their first
  occurrence with their counts, then sorted by falling count, equal counts keeping
  that order.
\<close>

fun counter_add :: "pystr \<Rightarrow> (pystr \<times> nat) list \<Rightarrow> (pystr \<times> nat) list" where
  "counter_add x [] = [(x, 1)]"
| "counter_add x ((k, n) # kvs) =
     (if k = x then (k, Suc n) # kvs else (k, n) # counter_add x kvs)"

definition Counter :: "pystr list \<Rightarrow> (pystr \<times> nat) list" where
  "Counter xs = foldl (\<lambda>d x. counter_add x d) [] xs"

definition most_common :: "(pystr \<times> nat) list \<Rightarrow> (pystr \<times> nat) list" where
  "most_common d = sort_key (\<lambda>kv. - int (snd kv)) d"

section \<open>Error and resolution\<close>

text \<open>A loop that returns at its first hit.\<close>

fun first_some :: "('a \<Rightarrow> 'b option) \<Rightarrow> 'a list \<Rightarrow> 'b option" where
  "first_some f [] = None"
| "first_some f (x # xs) = (case f x of Some y \<Rightarrow> Some y | None \<Rightarrow> first_some f xs)"

text \<open>
  \<open>extract_error_context\<close>. The window is a count of lines (the callers leave it at 3),
  so \<open>max(0, i - window)\<close> is the truncated difference.
\<close>

definition extract_error_context :: "pystr \<Rightarrow> pystr \<Rightarrow> nat \<Rightarrow> pystr" where
  "extract_error_context context error_match window =
     (let lines = split_lines context in
      case first_some (\<lambda>i. if py_in error_match (lines ! i) then Some i else None)
             [0 ..< length lines] of
        Some i \<Rightarrow> join_lines (slice lines (i - window) (min (length lines) (i + window + 1)))
      | None \<Rightarrow> error_match)"

definition resolution_phrases :: "pystr list" where
  "resolution_phrases = [str ''that worked'', str ''fixed'', str ''solved'', str ''resolved'']"

definition is_resolution_line :: "pystr \<Rightarrow> bool" where
  "is_resolution_line line = list_ex (\<lambda>phrase. py_in phrase (lower line)) resolution_phrases"

definition is_action_line :: "pystr \<Rightarrow> bool" where
  "is_action_line line =
     (py_in (str ''edit_file'') line \<or> py_in (str ''run_terminal_cmd'') line)"

text \<open>
  \<open>find_solution_for_error\<close>, innermost loop first: \<open>j\<close> runs down from \<open>i - 1\<close> to
  \<open>error_idx + 1\<close>; \<open>i\<close> runs up from \<open>error_idx + 1\<close> and stops before
  \<open>min(len(lines), error_idx + window)\<close>; \<open>error_idx\<close> runs over the lines that contain
  the error text. The only exit before the end is the \<open>return\<close> of the innermost loop.
\<close>

definition look_back :: "pystr list \<Rightarrow> nat \<Rightarrow> nat \<Rightarrow> pystr option" where
  "look_back lines error_idx i =
     first_some (\<lambda>j. if is_action_line (lines ! j)
                      then Some (join_lines (slice lines j (i + 1))) else None)
       (rev [error_idx + 1 ..< i])"

definition look_ahead :: "pystr list \<Rightarrow> nat \<Rightarrow> nat \<Rightarrow> pystr option" where
  "look_ahead lines window error_idx =
     first_some (\<lambda>i. if is_resolution_line (lines ! i) then look_back lines error_idx i
                      else None)
       [error_idx + 1 ..< min (length lines) (error_idx + window)]"

definition find_solution_for_error :: "pystr \<Rightarrow> pystr \<Rightarrow> nat \<Rightarrow> pystr option" where
  "find_solution_for_error context error window =
     (let lines = split_lines context;
          error_indices = filter (\<lambda>i. py_in error (lines ! i)) [0 ..< length lines]
      in first_some (look_ahead lines window) error_indices)"

section \<open>Context source\<close>

text \<open>
  What the run finds around it: the environment variable, the two probes of standard
  input (the zero-timeout \<open>select\<close> and the \<open>read\<close>), the history file, the readings of
  the clock as \<open>strftime\<close> formats them, and the two external commands. A probe either
  raises or returns.
\<close>

datatype py_exc = AttributeError | TypeError | IndexError | EnvironmentError

record world =
  CURSOR_CONTEXT :: "pystr option"
  stdin_ready :: "py_exc + bool"
  stdin_read :: "py_exc + pystr"
  conversation_history :: "py_exc + pystr"
  strftime_now :: "nat \<Rightarrow> pystr"
  git_diff :: "py_exc + pystr"
  tree :: "py_exc + pystr"

text \<open>The body of the first \<open>try\<close>: it returns a text, or falls out of the \<open>if\<close>, or raises.\<close>

definition try_stdin :: "world \<Rightarrow> py_exc + pystr option" where
  "try_stdin w =
     (case stdin_ready w of
        Inl e \<Rightarrow> Inl e
      | Inr ready \<Rightarrow>
          if ready then (case stdin_read w of Inl e \<Rightarrow> Inl e | Inr s \<Rightarrow> Inr (Some s))
          else Inr None)"

text \<open>The body of the second \<open>try\<close>.\<close>

definition try_history :: "world \<Rightarrow> py_exc + pystr option" where
  "try_history w =
     (case conversation_history w of Inl e \<Rightarrow> Inl e | Inr s \<Rightarrow> Inr (Some s))"

text \<open>\<open>try: body  except: pass\<close>: a value returned inside the body, or nothing.\<close>

definition except_pass :: "py_exc + 'a option \<Rightarrow> 'a option" where
  "except_pass body = (case body of Inl e \<Rightarrow> None | Inr v \<Rightarrow> v)"

definition get_conversation_context :: "world \<Rightarrow> py_exc + pystr" where
  "get_conversation_context w =
     (case (case CURSOR_CONTEXT w of None \<Rightarrow> None | Some v \<Rightarrow> if v \<noteq> [] then Some v else None) of
        Some cursor_context \<Rightarrow> Inr cursor_context
      | None \<Rightarrow>
         (case except_pass (try_stdin w) of
            Some s \<Rightarrow> Inr s
          | None \<Rightarrow>
             (case except_pass (try_history w) of
                Some s \<Rightarrow> Inr s
              | None \<Rightarrow> Inr (str ''No conversation context found''))))"

section \<open>Report\<close>

text \<open>\<open>if solution:\<close> and \<open>if not find_solution_for_error(..)\<close>: \<open>None\<close> and the empty text are false.\<close>

definition truthy :: "pystr option \<Rightarrow> bool" where
  "truthy v = (case v of None \<Rightarrow> False | Some s \<Rightarrow> s \<noteq> [])"

text \<open>The console: the argument of each \<open>print\<close>, in order.\<close>

definition outstanding :: "pystr \<Rightarrow> (pystr \<times> nat) list \<Rightarrow> (pystr \<times> nat) list" where
  "outstanding context most_common_errors =
     filter (\<lambda>(error, count). \<not> truthy (find_solution_for_error context error 5))
       most_common_errors"

definition print_summary ::
  "pystr \<Rightarrow> pystr \<Rightarrow> pystr list \<Rightarrow> (pystr \<times> pystr) list \<Rightarrow> (pystr \<times> nat) list \<Rightarrow> pystr list" where
  "print_summary now context solutions ambiguous most_common_errors =
     [str ''\<newline>=== Session Summary ===\<newline>'',
      str ''Session Date: '' @ now @ str ''\<newline>'']
     @ (if solutions \<noteq> [] then
          str ''\<newline>Completed Changes:'' # map (\<lambda>sol. [10003, 32] @ sol) solutions
        else [])
     @ (if ambiguous \<noteq> [] then
          str ''\<newline>In Progress/Attempted Changes:''
          # map (\<lambda>(prefix', attempt). prefix' @ str '' '' @ attempt) ambiguous
        else [])
     @ (if most_common_errors \<noteq> [] then
          str ''\<newline>Outstanding Issues:''
          # map (\<lambda>(error, count).
                  str ''! '' @ error @ str '' (occurred '' @ decimal count @ str '' times)'')
              (outstanding context most_common_errors)
        else [])
     @ [str ''\<newline>Next Steps:'']
     @ (if most_common_errors \<noteq> [] then [str ''1. Address remaining errors''] else [])
     @ (if ambiguous \<noteq> [] then [str ''2. Follow up on attempted changes''] else [])
     @ [str ''3. Continue with planned development tasks'']"

text \<open>
  The \<open>with open(BUGFIXES_FILE, "a") as f\<close> block runs on a frame: the value bound to the
  local name \<open>f\<close>, what has been written to the file, and the exception that has been
  raised, if any. Opening and writing the file are taken to succeed.
\<close>

datatype pyval = FileObj | StrObj pystr

record frame =
  var_f :: pyval
  written :: "pystr list"
  exc :: "py_exc option"

text \<open>A sequence of statements stops at the first that raises.\<close>

fun block :: "(frame \<Rightarrow> frame) list \<Rightarrow> frame \<Rightarrow> frame" where
  "block [] fr = fr"
| "block (st # sts) fr = (let fr' = st fr in if exc fr' = None then block sts fr' else fr')"

text \<open>The attribute \<open>f.write\<close> and the item \<open>f[0]\<close> of the value bound to \<open>f\<close>.\<close>

fun getattr_write :: "pyval \<Rightarrow> py_exc + unit" where
  "getattr_write FileObj = Inr ()"
| "getattr_write (StrObj s) = Inl AttributeError"

fun getitem0 :: "pyval \<Rightarrow> py_exc + pystr" where
  "getitem0 FileObj = Inl TypeError"
| "getitem0 (StrObj []) = Inl IndexError"
| "getitem0 (StrObj (c # cs)) = Inr [c]"

text \<open>\<open>f.write(s)\<close> for a text \<open>s\<close> that is computed without \<open>f\<close>.\<close>

definition f_write :: "pystr \<Rightarrow> frame \<Rightarrow> frame" where
  "f_write s fr =
     (case getattr_write (var_f fr) of
        Inl e \<Rightarrow> fr\<lparr>exc := Some e\<rparr>
      | Inr _ \<Rightarrow> fr\<lparr>written := written fr @ [s]\<rparr>)"

text \<open>
  One round of \<open>for f in set(frustration): f.write(f"- {f[0]}\n")\<close>: the loop binds \<open>f\<close>
  to the marker, then the call looks up \<open>f.write\<close>, then evaluates its argument.
\<close>

definition write_marker :: "pystr \<Rightarrow> frame \<Rightarrow> frame" where
  "write_marker marker fr =
     (let fr1 = fr\<lparr>var_f := StrObj marker\<rparr> in
      case getattr_write (var_f fr1) of
        Inl e \<Rightarrow> fr1\<lparr>exc := Some e\<rparr>
      | Inr _ \<Rightarrow>
         (case getitem0 (var_f fr1) of
            Inl e \<Rightarrow> fr1\<lparr>exc := Some e\<rparr>
          | Inr c \<Rightarrow> fr1\<lparr>written := written fr1 @ [str ''- '' @ c @ str ''\<newline>'']\<rparr>))"

text \<open>One entry per distinct error text; \<open>if solution:\<close> takes \<open>None\<close> and the empty text as false.\<close>

definition no_resolution :: pystr where
  "no_resolution = str ''\<newline>'' @ [9888, 65039] @ str '' No clear resolution found\<newline>''"

definition write_error_entry :: "pystr \<Rightarrow> pystr \<times> nat \<Rightarrow> frame \<Rightarrow> frame" where
  "write_error_entry context entry =
     (case entry of (error, count) \<Rightarrow>
        block
          [f_write (str ''\<newline>#### Error (occurred '' @ decimal count @ str '' times):\<newline>''),
           f_write (str ''```\<newline>''),
           f_write (extract_error_context context error 3),
           f_write (str ''\<newline>```\<newline>''),
           (case find_solution_for_error context error 5 of
              Some solution \<Rightarrow>
                if solution \<noteq> [] then
                  block [f_write (str ''\<newline>Resolution:\<newline>```\<newline>''),
                         f_write solution,
                         f_write (str ''\<newline>```\<newline>'')]
                else f_write no_resolution
            | None \<Rightarrow> f_write no_resolution)])"

text \<open>
  \<open>set(frustration)\<close> holds each distinct marker once. Python fixes no order for the
  loop over a set; the model takes the order of first occurrence.
\<close>

definition write_bugfixes ::
  "pystr \<Rightarrow> pystr \<Rightarrow> (pystr \<times> nat) list \<Rightarrow> pystr list \<Rightarrow> pystr list
     \<Rightarrow> (pystr \<times> pystr) list \<Rightarrow> frame \<Rightarrow> frame" where
  "write_bugfixes now context most_common_errors frustration solutions ambiguous =
     block
       [f_write (str ''\<newline>\<newline>## Session '' @ now @ str ''\<newline>''),
        (if most_common_errors \<noteq> [] \<or> frustration \<noteq> [] then
           block
             [f_write (str ''\<newline>### Issues Found\<newline>''),
              block (map (write_error_entry context) most_common_errors),
              (if frustration \<noteq> [] then
                 block [f_write (str ''\<newline>#### Frustration Points:\<newline>''),
                        block (map write_marker (remdups frustration))]
               else block [])]
         else block []),
        (if solutions \<noteq> [] \<or> ambiguous \<noteq> [] then
           block
             [f_write (str ''\<newline>### Solutions and Attempts:\<newline>''),
              block (map (\<lambda>sol. f_write (str ''- SOLVED: '' @ sol @ str ''\<newline>'')) solutions),
              block (map (\<lambda>(prefix', attempt).
                       f_write (str ''- '' @ prefix' @ str '' '' @ attempt @ str ''\<newline>''))
                     ambiguous)]
         else block [])]"

text \<open>
  The \<open>with open(SUMMARY_FILE, "w") as f\<close> block never rebinds \<open>f\<close>: the text of each
  \<open>f.write\<close>, in order. An external command that raises, or that prints nothing, adds
  nothing.
\<close>

definition command_section :: "pystr \<Rightarrow> py_exc + pystr \<Rightarrow> pystr list" where
  "command_section title result =
     (case result of
        Inl e \<Rightarrow> []
      | Inr stdout \<Rightarrow>
          if stdout \<noteq> [] then [title, str ''```\<newline>'' @ stdout @ str ''```\<newline>\<newline>'']
          else [])"

definition write_summary ::
  "world \<Rightarrow> pystr \<Rightarrow> pystr \<Rightarrow> pystr list \<Rightarrow> (pystr \<times> pystr) list \<Rightarrow> (pystr \<times> nat) list
     \<Rightarrow> pystr list" where
  "write_summary w now context solutions ambiguous most_common_errors =
     [str ''# Last Session Summary\<newline>\<newline>'',
      str ''Session Date: '' @ now @ str ''\<newline>\<newline>'']
     @ command_section (str ''## Files Changed\<newline>'') (git_diff w)
     @ command_section (str ''## Project Structure\<newline>'') (tree w)
     @ [str ''## Session Overview\<newline>'']
     @ (if solutions \<noteq> [] then
          str ''\<newline>### Completed Changes\<newline>''
          # map (\<lambda>sol. str ''- '' @ sol @ str ''\<newline>'') solutions
        else [])
     @ (if ambiguous \<noteq> [] then
          str ''\<newline>### In Progress/Attempted Changes\<newline>''
          # map (\<lambda>(prefix', attempt). str ''- '' @ prefix' @ str '' '' @ attempt @ str ''\<newline>'')
              ambiguous
        else [])
     @ (if most_common_errors \<noteq> [] then
          str ''\<newline>### Outstanding Issues\<newline>''
          # map (\<lambda>(error, count).
                  str ''- '' @ error @ str '' (occurred '' @ decimal count @ str '' times)\<newline>'')
              (outstanding context most_common_errors)
        else [])
     @ [str ''\<newline>## Next Steps\<newline>'']
     @ (if most_common_errors \<noteq> [] then [str ''1. Address remaining errors\<newline>''] else [])
     @ (if ambiguous \<noteq> [] then [str ''2. Follow up on attempted changes\<newline>''] else [])
     @ [str ''3. Continue with planned development tasks\<newline>'']"

text \<open>
  One run: what was printed, what was appended to the log, what the snapshot file was
  overwritten with (\<open>None\<close> when it was never opened), and the exception that ended the
  run, if any.
\<close>

record outcome =
  printed :: "pystr list"
  bugfixes_appended :: "pystr list"
  summary_written :: "pystr list option"
  raised :: "py_exc option"

definition summarize_session :: "world \<Rightarrow> outcome" where
  "summarize_session w =
     (case get_conversation_context w of
        Inl e \<Rightarrow>
          \<lparr>printed = [], bugfixes_appended = [], summary_written = None, raised = Some e\<rparr>
      | Inr context \<Rightarrow>
         (let errors = errors_in context;
              frustration = frustration_in context;
              most_common_errors = most_common (Counter errors);
              solutions = solutions_in context;
              ambiguous = ambiguous_in context;
              out = print_summary (strftime_now w 0) context solutions ambiguous
                      most_common_errors;
              fr = write_bugfixes (strftime_now w 1) context most_common_errors frustration
                     solutions ambiguous \<lparr>var_f = FileObj, written = [], exc = None\<rparr>
          in case exc fr of
               Some e \<Rightarrow>
                 \<lparr>printed = out, bugfixes_appended = written fr, summary_written = None,
                  raised = Some e\<rparr>
             | None \<Rightarrow>
                 \<lparr>printed = out, bugfixes_appended = written fr,
                  summary_written =
                    Some (write_summary w (strftime_now w 2) context solutions ambiguous
                            most_common_errors),
                  raised = None\<rparr>))"

section \<open>Frames that still hold the file\<close>

text \<open>
  A frame is intact while \<open>f\<close> is still the file and nothing has been raised. A statement
  keeps a frame when it leaves every intact frame intact, and raises \<open>e\<close> when it ends
  every intact frame with \<open>e\<close>.
\<close>

definition intact :: "frame \<Rightarrow> bool" where
  "intact fr = (var_f fr = FileObj \<and> exc fr = None)"

definition keeps :: "(frame \<Rightarrow> frame) \<Rightarrow> bool" where
  "keeps st = (\<forall>fr. intact fr \<longrightarrow> intact (st fr))"

definition raises :: "py_exc \<Rightarrow> (frame \<Rightarrow> frame) \<Rightarrow> bool" where
  "raises e st = (\<forall>fr. intact fr \<longrightarrow> exc (st fr) = Some e)"

section \<open>Bare trigger tokens\<close>

text \<open>
  What the group of the frustration pattern can match: a run of four or more code
  points of \<open>[A-Z !]\<close>, or one of the four words.
\<close>

definition is_bare_token :: "pystr \<Rightarrow> bool" where
  "is_bare_token m =
     ((4 \<le> length m \<and> (\<forall>c \<in> set m. in_charset caps_space_bang c))
      \<or> m \<in> set [str ''damn'', str ''shit'', str ''fuck'', str ''crap''])"

section \<open>Where a marker starts and where the scan resumes\<close>

text \<open>
  The token that the group of the frustration pattern takes at the start of a text:
  the longest run of \<open>[A-Z !]\<close> when it has four or more code points, else the first of
  the four words that stands there. \<open>after_context\<close> is the text left when the run of
  code points other than the full stop and the newline has been taken off.
\<close>

definition token_at :: "pystr \<Rightarrow> pystr option" where
  "token_at s =
     (let k = length (takeWhile (in_charset caps_space_bang) s) in
      if 4 \<le> k then Some (take k s)
      else find (\<lambda>w. prefix w s) [str ''damn'', str ''shit'', str ''fuck'', str ''crap''])"

definition after_context :: "pystr \<Rightarrow> pystr" where
  "after_context s = dropWhile (in_charset not_nl_dot) s"

section \<open>The output as text\<close>




section \<open>Lines and loops\<close>

lemma split_lines_not_Nil: "split_lines s \<noteq> []"
  by (induction s) (auto split: list.splits)

lemma split_lines_no_NL: "l \<in> set (split_lines s) \<Longrightarrow> NL \<notin> set l"
proof (induction s arbitrary: l)
  case Nil
  then show ?case by simp
next
  case (Cons c cs)
  show ?case
  proof (cases "c = NL")
    case True
    with Cons show ?thesis by auto
  next
    case False
    obtain l0 ls where sp: "split_lines cs = l0 # ls"
      using split_lines_not_Nil [of cs] by (cases "split_lines cs") auto
    with False Cons.prems have "l = c # l0 \<or> l \<in> set ls" by auto
    then show ?thesis
    proof
      assume "l = c # l0"
      moreover have "NL \<notin> set l0" using Cons.IH [of l0] sp by simp
      ultimately show ?thesis using False by auto
    next
      assume "l \<in> set ls"
      then show ?thesis using Cons.IH [of l] sp by simp
    qed
  qed
qed

lemma py_in_subset: "py_in needle hay \<Longrightarrow> set needle \<subseteq> set hay"
  unfolding py_in_def by (rule set_mono_sublist)

lemma first_some_None_iff: "first_some f xs = None \<longleftrightarrow> (\<forall>x \<in> set xs. f x = None)"
  by (induction xs) (auto split: option.splits)

lemma first_some_Some_iff:
  "first_some f xs = Some y \<longleftrightarrow>
     (\<exists>as x bs. xs = as @ x # bs \<and> (\<forall>a \<in> set as. f a = None) \<and> f x = Some y)"
proof (induction xs)
  case Nil
  then show ?case by simp
next
  case (Cons x xs)
  show ?case
  proof (cases "f x")
    case None
    have "(\<exists>as x' bs. x # xs = as @ x' # bs \<and> (\<forall>a \<in> set as. f a = None) \<and> f x' = Some y)
        \<longleftrightarrow> (\<exists>as x' bs. xs = as @ x' # bs \<and> (\<forall>a \<in> set as. f a = None) \<and> f x' = Some y)"
      (is "?L \<longleftrightarrow> ?R")
    proof
      assume ?L
      then obtain as x' bs where h: "x # xs = as @ x' # bs" "\<forall>a \<in> set as. f a = None"
        "f x' = Some y" by blast
      with None have "as \<noteq> []" by (cases as) auto
      then obtain as' where "as = x # as'" using h(1) by (cases as) auto
      with h show ?R by auto
    next
      assume ?R
      then obtain as x' bs where h: "xs = as @ x' # bs" "\<forall>a \<in> set as. f a = None"
        "f x' = Some y" by blast
      then have "x # xs = (x # as) @ x' # bs \<and> (\<forall>a \<in> set (x # as). f a = None) \<and> f x' = Some y"
        using None by simp
      then show ?L by blast
    qed
    with None Cons show ?thesis by simp
  next
    case (Some z)
    have "(\<exists>as x' bs. x # xs = as @ x' # bs \<and> (\<forall>a \<in> set as. f a = None) \<and> f x' = Some y)
        \<longleftrightarrow> z = y" (is "?L \<longleftrightarrow> _")
    proof
      assume ?L
      then obtain as x' bs where h: "x # xs = as @ x' # bs" "\<forall>a \<in> set as. f a = None"
        "f x' = Some y" by blast
      show "z = y"
      proof (cases as)
        case Nil
        with h Some show ?thesis by simp
      next
        case (Cons a as')
        with h Some show ?thesis by auto
      qed
    next
      assume "z = y"
      then have "x # xs = [] @ x # xs \<and> (\<forall>a \<in> set []. f a = None) \<and> f x = Some y"
        using Some by simp
      then show ?L by blast
    qed
    with Some show ?thesis by simp
  qed
qed

lemma error_with_newline_in_no_line:
  assumes "NL \<in> set error" "line \<in> set (split_lines context)"
  shows "\<not> py_in error line"
  using assms split_lines_no_NL [of line "context"] py_in_subset [of error line] by auto

text \<open>
  C2. An extracted error whose text contains a newline lies in no line of the transcript:
  \<open>find_solution_for_error\<close> finds no occurrence and returns \<open>None\<close>, whatever the
  window, and \<open>extract_error_context\<close> falls through its loop and returns the matched
  text itself.
\<close>

theorem C2_multiline_error_never_located:
  assumes "error \<in> set (errors_in context)" and "NL \<in> set error"
  shows "(\<forall>line \<in> set (split_lines context). \<not> py_in error line)
       \<and> find_solution_for_error context error window = None
       \<and> extract_error_context context error window' = error"
proof -
  have no: "\<forall>line \<in> set (split_lines context). \<not> py_in error line"
    using assms(2) error_with_newline_in_no_line by blast
  then have idx: "\<forall>i < length (split_lines context). \<not> py_in error (split_lines context ! i)"
    by simp
  then have "filter (\<lambda>i. py_in error (split_lines context ! i))
               [0 ..< length (split_lines context)] = []"
    by (simp add: filter_empty_conv)
  then have a: "find_solution_for_error context error window = None"
    by (simp add: find_solution_for_error_def Let_def)
  have "first_some (\<lambda>i. if py_in error (split_lines context ! i) then Some i else None)
          [0 ..< length (split_lines context)] = None"
    using idx by (simp add: first_some_None_iff)
  then have b: "extract_error_context context error window' = error"
    by (simp add: extract_error_context_def Let_def)
  from no a b show ?thesis by blast
qed

theorem C2_witness:
  "str ''Error: build failed\<newline>ok'' \<in> set (errors_in (str ''Error: build failed\<newline>ok\<newline>edit_file\<newline>fixed''))
   \<and> NL \<in> set (str ''Error: build failed\<newline>ok'')
   \<and> find_solution_for_error (str ''Error: build failed\<newline>ok\<newline>edit_file\<newline>fixed'')
        (str ''Error: build failed\<newline>ok'') 5 = None
   \<and> extract_error_context (str ''Error: build failed\<newline>ok\<newline>edit_file\<newline>fixed'')
        (str ''Error: build failed\<newline>ok'') 3 = str ''Error: build failed\<newline>ok''"
proof -
  have h1: "str ''Error: build failed\<newline>ok'' \<in> set (errors_in (str ''Error: build failed\<newline>ok\<newline>edit_file\<newline>fixed''))"
    by code_simp
  have h2: "NL \<in> set (str ''Error: build failed\<newline>ok'')"
    by code_simp
  from C2_multiline_error_never_located [OF h1 h2, of 5 3] h1 h2 show ?thesis by blast
qed

section \<open>The log block\<close>

lemma keeps_f_write: "keeps (f_write s)"
  by (simp add: keeps_def intact_def f_write_def)

lemma keeps_block: "(\<forall>st \<in> set sts. keeps st) \<Longrightarrow> keeps (block sts)"
proof (induction sts)
  case Nil
  then show ?case by (simp add: keeps_def)
next
  case (Cons st sts)
  then have a: "keeps st" and b: "keeps (block sts)" by simp_all
  show ?case
    unfolding keeps_def
  proof (intro allI impI)
    fix fr assume "intact fr"
    then have i: "intact (st fr)" using a by (simp add: keeps_def)
    then have "intact (block sts (st fr))" using b by (simp add: keeps_def)
    with i show "intact (block (st # sts) fr)" by (simp add: intact_def Let_def)
  qed
qed

lemma keeps_write_error_entry: "keeps (write_error_entry context entry)"
proof -
  obtain error count where e: "entry = (error, count)" by (cases entry)
  have "keeps (case find_solution_for_error context error 5 of
                 None \<Rightarrow> f_write no_resolution
               | Some solution \<Rightarrow>
                   if solution \<noteq> [] then
                     block [f_write (str ''\<newline>Resolution:\<newline>```\<newline>''),
                            f_write solution, f_write (str ''\<newline>```\<newline>'')]
                   else f_write no_resolution)"
    by (auto split: option.splits intro!: keeps_block keeps_f_write)
  then show ?thesis
    unfolding write_error_entry_def e
    by (auto intro!: keeps_block keeps_f_write)
qed

lemma raises_write_marker: "raises AttributeError (write_marker marker)"
  by (simp add: raises_def write_marker_def)

lemma raises_block_first: "raises e st \<Longrightarrow> raises e (block (st # sts))"
  by (simp add: raises_def Let_def)

lemma raises_block_later: "keeps st \<Longrightarrow> raises e (block sts) \<Longrightarrow> raises e (block (st # sts))"
  by (simp add: raises_def keeps_def intact_def Let_def)

lemma raises_write_bugfixes:
  assumes "frustration \<noteq> []"
  shows "raises AttributeError
           (write_bugfixes now context most_common_errors frustration solutions ambiguous)"
proof -
  obtain m ms where r: "remdups frustration = m # ms"
    using assms by (cases "remdups frustration") auto
  have "raises AttributeError (block (map write_marker (remdups frustration)))"
    unfolding r by (simp del: block.simps add: raises_block_first raises_write_marker)
  then have "raises AttributeError
      (block [f_write (str ''\<newline>#### Frustration Points:\<newline>''),
              block (map write_marker (remdups frustration))])"
    by (intro raises_block_later keeps_f_write raises_block_first)
  then have "raises AttributeError
      (block [f_write (str ''\<newline>### Issues Found\<newline>''),
              block (map (write_error_entry context) most_common_errors),
              (if frustration \<noteq> [] then
                 block [f_write (str ''\<newline>#### Frustration Points:\<newline>''),
                        block (map write_marker (remdups frustration))]
               else block [])])"
    using assms
    by (intro raises_block_later keeps_f_write keeps_block raises_block_first)
       (auto simp: keeps_write_error_entry)
  then show ?thesis
    unfolding write_bugfixes_def using assms
    by (intro raises_block_later keeps_f_write raises_block_first) simp
qed

text \<open>
  C4. Whenever the transcript yields a frustration marker, the loop over the markers
  rebinds \<open>f\<close> to a text, the call \<open>f.write\<close> raises \<open>AttributeError\<close> inside the block
  that appends to the log, and the run ends there: the snapshot file is never opened.
\<close>

theorem C4_frustration_aborts_run:
  assumes "get_conversation_context w = Inr context" and "frustration_in context \<noteq> []"
  shows "raised (summarize_session w) = Some AttributeError
       \<and> summary_written (summarize_session w) = None"
proof -
  have "intact \<lparr>var_f = FileObj, written = [], exc = None\<rparr>"
    by (simp add: intact_def)
  then have "exc (write_bugfixes (strftime_now w 1) context
                   (most_common (Counter (errors_in context))) (frustration_in context)
                   (solutions_in context) (ambiguous_in context)
                   \<lparr>var_f = FileObj, written = [], exc = None\<rparr>) = Some AttributeError"
    using raises_write_bugfixes [OF assms(2)] unfolding raises_def by blast
  then show ?thesis
    by (simp add: summarize_session_def assms(1) Let_def)
qed

theorem C4_witness:
  "get_conversation_context
      \<lparr>CURSOR_CONTEXT = Some (str ''WHAT is this''), stdin_ready = Inr False,
         stdin_read = Inr [], conversation_history = Inl EnvironmentError,
         strftime_now = (\<lambda>k. str ''2025-01-01 10:00''), git_diff = Inr [],
         tree = Inl EnvironmentError\<rparr> = Inr (str ''WHAT is this'')
   \<and> frustration_in (str ''WHAT is this'') \<noteq> []
   \<and> raised (summarize_session
      \<lparr>CURSOR_CONTEXT = Some (str ''WHAT is this''), stdin_ready = Inr False,
         stdin_read = Inr [], conversation_history = Inl EnvironmentError,
         strftime_now = (\<lambda>k. str ''2025-01-01 10:00''), git_diff = Inr [],
         tree = Inl EnvironmentError\<rparr>) = Some AttributeError
   \<and> summary_written (summarize_session
      \<lparr>CURSOR_CONTEXT = Some (str ''WHAT is this''), stdin_ready = Inr False,
         stdin_read = Inr [], conversation_history = Inl EnvironmentError,
         strftime_now = (\<lambda>k. str ''2025-01-01 10:00''), git_diff = Inr [],
         tree = Inl EnvironmentError\<rparr>) = None"
proof -
  let ?w = "\<lparr>CURSOR_CONTEXT = Some (str ''WHAT is this''), stdin_ready = Inr False,
         stdin_read = Inr [], conversation_history = Inl EnvironmentError,
         strftime_now = (\<lambda>k. str ''2025-01-01 10:00''), git_diff = Inr [],
         tree = Inl EnvironmentError\<rparr>"
  have h1: "get_conversation_context ?w = Inr (str ''WHAT is this'')"
    by (simp add: get_conversation_context_def str_def)
  have h2: "frustration_in (str ''WHAT is this'') \<noteq> []"
    by code_simp
  from C4_frustration_aborts_run [OF h1 h2] h1 h2 show ?thesis by blast
qed

section \<open>Context source, and three runs\<close>

text \<open>
  C8. The sources are tried in order and the first that delivers is returned: the
  value of \<open>CURSOR_CONTEXT\<close> when it is set and not empty; else what standard input
  holds when the readiness check reports data and the read returns; else the history
  file when it can be read; else the sentinel. A probe that raises is passed over, and
  the function returns a text in every world.
\<close>

theorem C8_context_sources_in_order:
  "(CURSOR_CONTEXT w = Some v \<and> v \<noteq> [] \<longrightarrow> get_conversation_context w = Inr v)
   \<and> ((CURSOR_CONTEXT w = None \<or> CURSOR_CONTEXT w = Some []) \<longrightarrow>
        (stdin_ready w = Inr True \<and> stdin_read w = Inr s \<longrightarrow>
           get_conversation_context w = Inr s)
      \<and> ((stdin_ready w \<noteq> Inr True \<or> (\<exists>e. stdin_read w = Inl e)) \<longrightarrow>
           (conversation_history w = Inr h \<longrightarrow> get_conversation_context w = Inr h)
         \<and> ((\<exists>e. conversation_history w = Inl e) \<longrightarrow>
              get_conversation_context w = Inr (str ''No conversation context found''))))
   \<and> (\<exists>text. get_conversation_context w = Inr text)"
proof (intro conjI impI)
  assume "CURSOR_CONTEXT w = Some v \<and> v \<noteq> []"
  then show "get_conversation_context w = Inr v"
    by (simp add: get_conversation_context_def)
next
  assume "CURSOR_CONTEXT w = None \<or> CURSOR_CONTEXT w = Some []"
    and "stdin_ready w = Inr True \<and> stdin_read w = Inr s"
  then show "get_conversation_context w = Inr s"
    by (auto simp: get_conversation_context_def except_pass_def try_stdin_def)
next
  assume env: "CURSOR_CONTEXT w = None \<or> CURSOR_CONTEXT w = Some []"
    and nostdin: "stdin_ready w \<noteq> Inr True \<or> (\<exists>e. stdin_read w = Inl e)"
  have skip: "except_pass (try_stdin w) = None"
    using nostdin
    by (auto simp: except_pass_def try_stdin_def split: sum.splits)
  {
    assume "conversation_history w = Inr h"
    then show "get_conversation_context w = Inr h"
      using env skip
      by (auto simp: get_conversation_context_def except_pass_def try_history_def)
  }
  {
    assume "\<exists>e. conversation_history w = Inl e"
    then show "get_conversation_context w = Inr (str ''No conversation context found'')"
      using env skip
      by (auto simp: get_conversation_context_def except_pass_def try_history_def)
  }
next
  show "\<exists>text. get_conversation_context w = Inr text"
    by (simp add: get_conversation_context_def split: option.splits)
qed

theorem C8_witness:
  "get_conversation_context
     \<lparr>CURSOR_CONTEXT = Some (str ''from env''), stdin_ready = Inr True,
      stdin_read = Inr (str ''from stdin''), conversation_history = Inr (str ''from file''),
      strftime_now = (\<lambda>k. []), git_diff = Inr [], tree = Inr []\<rparr> = Inr (str ''from env'')
   \<and> get_conversation_context
     \<lparr>CURSOR_CONTEXT = Some [], stdin_ready = Inr True,
      stdin_read = Inr (str ''from stdin''), conversation_history = Inr (str ''from file''),
      strftime_now = (\<lambda>k. []), git_diff = Inr [], tree = Inr []\<rparr> = Inr (str ''from stdin'')
   \<and> get_conversation_context
     \<lparr>CURSOR_CONTEXT = None, stdin_ready = Inl EnvironmentError,
      stdin_read = Inr (str ''from stdin''), conversation_history = Inr (str ''from file''),
      strftime_now = (\<lambda>k. []), git_diff = Inr [], tree = Inr []\<rparr> = Inr (str ''from file'')
   \<and> get_conversation_context
     \<lparr>CURSOR_CONTEXT = None, stdin_ready = Inr True,
      stdin_read = Inl EnvironmentError, conversation_history = Inl EnvironmentError,
      strftime_now = (\<lambda>k. []), git_diff = Inr [], tree = Inr []\<rparr>
       = Inr (str ''No conversation context found'')"
proof -
  let ?w1 = "\<lparr>CURSOR_CONTEXT = Some (str ''from env''), stdin_ready = Inr True,
      stdin_read = Inr (str ''from stdin''), conversation_history = Inr (str ''from file''),
      strftime_now = (\<lambda>k. []), git_diff = Inr [], tree = Inr []\<rparr>"
  let ?w2 = "\<lparr>CURSOR_CONTEXT = Some [], stdin_ready = Inr True,
      stdin_read = Inr (str ''from stdin''), conversation_history = Inr (str ''from file''),
      strftime_now = (\<lambda>k. []), git_diff = Inr [], tree = Inr []\<rparr>"
  let ?w3 = "\<lparr>CURSOR_CONTEXT = None, stdin_ready = Inl EnvironmentError,
      stdin_read = Inr (str ''from stdin''), conversation_history = Inr (str ''from file''),
      strftime_now = (\<lambda>k. []), git_diff = Inr [], tree = Inr []\<rparr>"
  let ?w4 = "\<lparr>CURSOR_CONTEXT = None, stdin_ready = Inr True,
      stdin_read = Inl EnvironmentError, conversation_history = Inl EnvironmentError,
      strftime_now = (\<lambda>k. []), git_diff = Inr [], tree = Inr []\<rparr>"
  have a: "get_conversation_context ?w1 = Inr (str ''from env'')"
    using C8_context_sources_in_order [of ?w1 "str ''from env''" "[]" "[]"]
    by (simp add: str_def)
  have b: "get_conversation_context ?w2 = Inr (str ''from stdin'')"
    using C8_context_sources_in_order [of ?w2 "[]" "str ''from stdin''" "[]"]
    by simp
  have c: "get_conversation_context ?w3 = Inr (str ''from file'')"
    using C8_context_sources_in_order [of ?w3 "[]" "[]" "str ''from file''"]
    by simp
  have d: "get_conversation_context ?w4 = Inr (str ''No conversation context found'')"
    using C8_context_sources_in_order [of ?w4 "[]" "[]" "[]"]
    by simp
  from a b c d show ?thesis by blast
qed

text \<open>
  C1. On the transcript of the example the analyzer finds one error text, counted once,
  one phrase of the tier \<open>??\<close> and one solved phrase. The error text runs over the first
  newline, so it is in no line, and \<open>find_solution_for_error\<close> returns \<open>None\<close>: there is
  no snippet from the \<open>edit_file\<close> line to the line \<open>that worked now\<close>.
\<close>

theorem C1_example_resolution_is_None:
  "errors_in (str ''Error: build failed\<newline>ok let's try a different approach\<newline>... edit_file foo.py ...\<newline>that worked now'')
     = [str ''Error: build failed\<newline>ok let's try a different approach'']
   \<and> most_common (Counter (errors_in (str ''Error: build failed\<newline>ok let's try a different approach\<newline>... edit_file foo.py ...\<newline>that worked now'')))
     = [(str ''Error: build failed\<newline>ok let's try a different approach'', 1)]
   \<and> ambiguous_in (str ''Error: build failed\<newline>ok let's try a different approach\<newline>... edit_file foo.py ...\<newline>that worked now'')
     = [(str ''??'', str ''let's try a different approach\<newline>.'')]
   \<and> solutions_in (str ''Error: build failed\<newline>ok let's try a different approach\<newline>... edit_file foo.py ...\<newline>that worked now'')
     = [str ''that worked now'']
   \<and> find_solution_for_error (str ''Error: build failed\<newline>ok let's try a different approach\<newline>... edit_file foo.py ...\<newline>that worked now'')
       (str ''Error: build failed\<newline>ok let's try a different approach'') 5 = None"
  by code_simp

text \<open>
  C3. On a transcript with one frustration marker the log receives the headers of the
  section and no line for the marker: the first round of the loop raises.
\<close>

theorem C3_no_marker_line_is_written:
  "frustration_in (str ''THIS IS BROKEN'') = [str ''THIS IS BROKEN'']
   \<and> bugfixes_appended (summarize_session
        \<lparr>CURSOR_CONTEXT = Some (str ''THIS IS BROKEN''), stdin_ready = Inr False,
         stdin_read = Inr [], conversation_history = Inl EnvironmentError,
         strftime_now = (\<lambda>k. str ''2025-01-01 10:00''), git_diff = Inr [],
         tree = Inr []\<rparr>)
     = [str ''\<newline>\<newline>## Session 2025-01-01 10:00\<newline>'',
        str ''\<newline>### Issues Found\<newline>'',
        str ''\<newline>#### Frustration Points:\<newline>'']
   \<and> raised (summarize_session
        \<lparr>CURSOR_CONTEXT = Some (str ''THIS IS BROKEN''), stdin_ready = Inr False,
         stdin_read = Inr [], conversation_history = Inl EnvironmentError,
         strftime_now = (\<lambda>k. str ''2025-01-01 10:00''), git_diff = Inr [],
         tree = Inr []\<rparr>) = Some AttributeError"
  by code_simp

text \<open>
  C5. With the window 5 the scan after an error in line 0 reads the lines 1 to 4 only:
  a resolution phrase in line 5, with an action line before it, gives no snippet,
  while the same phrase in line 4 does.
\<close>

theorem C5_fifth_line_is_not_scanned:
  "errors_in (str ''Error: build failed. retry\<newline>a\<newline>edit_file foo.py\<newline>b\<newline>c\<newline>that worked now'')
     = [str ''Error: build failed. retry'']
   \<and> find_solution_for_error
        (str ''Error: build failed. retry\<newline>a\<newline>edit_file foo.py\<newline>b\<newline>c\<newline>that worked now'')
        (str ''Error: build failed. retry'') 5 = None
   \<and> find_solution_for_error
        (str ''Error: build failed. retry\<newline>a\<newline>edit_file foo.py\<newline>b\<newline>that worked now'')
        (str ''Error: build failed. retry'') 5
     = Some (str ''edit_file foo.py\<newline>b\<newline>that worked now'')"
  by code_simp

section \<open>The scan of one occurrence\<close>

lemma first_some_upt:
  "first_some f [a ..< b] = Some y \<longleftrightarrow>
     (\<exists>i. a \<le> i \<and> i < b \<and> f i = Some y \<and> (\<forall>k. a \<le> k \<and> k < i \<longrightarrow> f k = None))"
proof (induction "b - a" arbitrary: a)
  case 0
  then show ?case by simp
next
  case (Suc n)
  then have ab: "a < b" and n: "n = b - Suc a" by simp_all
  have step: "[a ..< b] = a # [Suc a ..< b]" using ab by (simp add: upt_rec)
  show ?case
  proof (cases "f a")
    case None
    have "(\<exists>i. a \<le> i \<and> i < b \<and> f i = Some y \<and> (\<forall>k. a \<le> k \<and> k < i \<longrightarrow> f k = None))
      \<longleftrightarrow> (\<exists>i. Suc a \<le> i \<and> i < b \<and> f i = Some y \<and> (\<forall>k. Suc a \<le> k \<and> k < i \<longrightarrow> f k = None))"
      (is "?L \<longleftrightarrow> ?R")
    proof
      assume ?L
      then obtain i where i: "a \<le> i" "i < b" "f i = Some y"
        "\<forall>k. a \<le> k \<and> k < i \<longrightarrow> f k = None" by blast
      with None have "i \<noteq> a" by auto
      with i have "Suc a \<le> i" by simp
      with i show ?R by auto
    next
      assume ?R
      then obtain i where i: "Suc a \<le> i" "i < b" "f i = Some y"
        "\<forall>k. Suc a \<le> k \<and> k < i \<longrightarrow> f k = None" by blast
      have "\<forall>k. a \<le> k \<and> k < i \<longrightarrow> f k = None"
      proof (intro allI impI)
        fix k assume "a \<le> k \<and> k < i"
        then show "f k = None" using None i(4) by (cases "k = a") auto
      qed
      with i show ?L by (intro exI [of _ i]) simp
    qed
    with None step Suc.hyps(1) [OF n] show ?thesis by simp
  next
    case (Some z)
    have "(\<exists>i. a \<le> i \<and> i < b \<and> f i = Some y \<and> (\<forall>k. a \<le> k \<and> k < i \<longrightarrow> f k = None))
      \<longleftrightarrow> z = y" (is "?L \<longleftrightarrow> _")
    proof
      assume ?L
      then obtain i where i: "a \<le> i" "i < b" "f i = Some y"
        "\<forall>k. a \<le> k \<and> k < i \<longrightarrow> f k = None" by blast
      have "i = a"
      proof (rule ccontr)
        assume "i \<noteq> a"
        with i have "f a = None" by simp
        with Some show False by simp
      qed
      with i Some show "z = y" by simp
    next
      assume "z = y"
      with Some ab show ?L by (intro exI [of _ a]) auto
    qed
    with Some step show ?thesis by simp
  qed
qed

lemma first_some_rev_upt:
  "first_some f (rev [a ..< b]) = Some y \<longleftrightarrow>
     (\<exists>i. a \<le> i \<and> i < b \<and> f i = Some y \<and> (\<forall>k. i < k \<and> k < b \<longrightarrow> f k = None))"
proof (induction b)
  case 0
  then show ?case by simp
next
  case (Suc b)
  show ?case
  proof (cases "a \<le> b")
    case False
    then show ?thesis by auto
  next
    case True
    then have step: "rev [a ..< Suc b] = b # rev [a ..< b]" by simp
    show ?thesis
    proof (cases "f b")
      case None
      have "(\<exists>i. a \<le> i \<and> i < Suc b \<and> f i = Some y \<and> (\<forall>k. i < k \<and> k < Suc b \<longrightarrow> f k = None))
        \<longleftrightarrow> (\<exists>i. a \<le> i \<and> i < b \<and> f i = Some y \<and> (\<forall>k. i < k \<and> k < b \<longrightarrow> f k = None))"
        (is "?L \<longleftrightarrow> ?R")
      proof
        assume ?L
        then obtain i where i: "a \<le> i" "i < Suc b" "f i = Some y"
          "\<forall>k. i < k \<and> k < Suc b \<longrightarrow> f k = None" by blast
        with None have "i \<noteq> b" by auto
        with i have "i < b" by simp
        with i show ?R by auto
      next
        assume ?R
        then obtain i where i: "a \<le> i" "i < b" "f i = Some y"
          "\<forall>k. i < k \<and> k < b \<longrightarrow> f k = None" by blast
        have "\<forall>k. i < k \<and> k < Suc b \<longrightarrow> f k = None"
        proof (intro allI impI)
          fix k assume "i < k \<and> k < Suc b"
          then show "f k = None" using None i(4) by (cases "k = b") auto
        qed
        with i show ?L by (intro exI [of _ i]) simp
      qed
      with None step Suc.IH show ?thesis by simp
    next
      case (Some z)
      have "(\<exists>i. a \<le> i \<and> i < Suc b \<and> f i = Some y \<and> (\<forall>k. i < k \<and> k < Suc b \<longrightarrow> f k = None))
        \<longleftrightarrow> z = y" (is "?L \<longleftrightarrow> _")
      proof
        assume ?L
        then obtain i where i: "a \<le> i" "i < Suc b" "f i = Some y"
          "\<forall>k. i < k \<and> k < Suc b \<longrightarrow> f k = None" by blast
        have "i = b"
        proof (rule ccontr)
          assume "i \<noteq> b"
          with i have "f b = None" by simp
          with Some show False by simp
        qed
        with i Some show "z = y" by simp
      next
        assume "z = y"
        with Some True show ?L by (intro exI [of _ b]) auto
      qed
      with Some step show ?thesis by simp
    qed
  qed
qed

lemma look_back_Some_iff:
  "look_back lines error_idx i = Some snippet \<longleftrightarrow>
     (\<exists>j. error_idx < j \<and> j < i \<and> is_action_line (lines ! j)
        \<and> (\<forall>k. j < k \<and> k < i \<longrightarrow> \<not> is_action_line (lines ! k))
        \<and> snippet = join_lines (slice lines j (i + 1)))"
  unfolding look_back_def first_some_rev_upt
  by (auto simp: Suc_le_eq split: if_splits)

text \<open>
  C6, as the code has it. The scan of one occurrence has no exit other than the
  \<open>return\<close>: a resolution-indicating line with no action line between the occurrence
  and itself is passed over, and the scan goes on to the later lines of the window. The
  occurrence gives the snippet from the nearest action line to the first
  resolution-indicating line of the window that has an action line strictly between
  the occurrence and itself, and gives none only when no line of the window has one.
\<close>

theorem C6_scan_goes_on_after_a_resolution_line:
  "look_ahead lines window error_idx = Some snippet \<longleftrightarrow>
     (\<exists>i j. error_idx < j \<and> j < i \<and> i < min (length lines) (error_idx + window)
        \<and> is_resolution_line (lines ! i) \<and> is_action_line (lines ! j)
        \<and> (\<forall>k. j < k \<and> k < i \<longrightarrow> \<not> is_action_line (lines ! k))
        \<and> (\<forall>i' j'. error_idx < j' \<and> j' < i' \<and> i' < i \<and> is_resolution_line (lines ! i')
              \<longrightarrow> \<not> is_action_line (lines ! j'))
        \<and> snippet = join_lines (slice lines j (i + 1)))"
  (is "?L \<longleftrightarrow> ?R")
proof
  assume ?L
  then obtain i where i: "Suc error_idx \<le> i" "i < min (length lines) (error_idx + window)"
    "(if is_resolution_line (lines ! i) then look_back lines error_idx i else None) = Some snippet"
    "\<forall>k. Suc error_idx \<le> k \<and> k < i \<longrightarrow>
       (if is_resolution_line (lines ! k) then look_back lines error_idx k else None) = None"
    unfolding look_ahead_def first_some_upt by auto
  from i(3) have res: "is_resolution_line (lines ! i)"
    and lb: "look_back lines error_idx i = Some snippet"
    by (auto split: if_splits)
  from lb obtain j where j: "error_idx < j" "j < i" "is_action_line (lines ! j)"
    "\<forall>k. j < k \<and> k < i \<longrightarrow> \<not> is_action_line (lines ! k)"
    "snippet = join_lines (slice lines j (i + 1))"
    unfolding look_back_Some_iff by blast
  have earlier: "\<forall>i' j'. error_idx < j' \<and> j' < i' \<and> i' < i \<and> is_resolution_line (lines ! i')
              \<longrightarrow> \<not> is_action_line (lines ! j')"
  proof (intro allI impI notI)
    fix i' j'
    assume a: "error_idx < j' \<and> j' < i' \<and> i' < i \<and> is_resolution_line (lines ! i')"
      and act: "is_action_line (lines ! j')"
    then have none: "look_back lines error_idx i' = None"
      using i(4) by (auto split: if_splits)
    have fin: "finite {k. j' \<le> k \<and> k < i' \<and> is_action_line (lines ! k)}" by simp
    have ne: "{k. j' \<le> k \<and> k < i' \<and> is_action_line (lines ! k)} \<noteq> {}"
      using a act by auto
    define m where "m = Max {k. j' \<le> k \<and> k < i' \<and> is_action_line (lines ! k)}"
    have m_in: "m \<in> {k. j' \<le> k \<and> k < i' \<and> is_action_line (lines ! k)}"
      unfolding m_def using Max_in [OF fin ne] .
    have m_max: "\<forall>k. m < k \<and> k < i' \<longrightarrow> \<not> is_action_line (lines ! k)"
    proof (intro allI impI notI)
      fix k assume k: "m < k \<and> k < i'" and "is_action_line (lines ! k)"
      with m_in have "k \<in> {k. j' \<le> k \<and> k < i' \<and> is_action_line (lines ! k)}" by auto
      then have "k \<le> m" unfolding m_def using Max_ge [OF fin] by blast
      with k show False by simp
    qed
    have "look_back lines error_idx i' = Some (join_lines (slice lines m (i' + 1)))"
      unfolding look_back_Some_iff using m_in m_max a by (intro exI [of _ m]) auto
    with none show False by simp
  qed
  from i(2) res j earlier show ?R by blast
next
  assume ?R
  then obtain i j where h: "error_idx < j" "j < i" "i < min (length lines) (error_idx + window)"
    "is_resolution_line (lines ! i)" "is_action_line (lines ! j)"
    "\<forall>k. j < k \<and> k < i \<longrightarrow> \<not> is_action_line (lines ! k)"
    "\<forall>i' j'. error_idx < j' \<and> j' < i' \<and> i' < i \<and> is_resolution_line (lines ! i')
              \<longrightarrow> \<not> is_action_line (lines ! j')"
    "snippet = join_lines (slice lines j (i + 1))" by blast
  have lb: "look_back lines error_idx i = Some snippet"
    unfolding look_back_Some_iff using h by blast
  have before: "\<forall>k. Suc error_idx \<le> k \<and> k < i \<longrightarrow>
       (if is_resolution_line (lines ! k) then look_back lines error_idx k else None) = None"
  proof (intro allI impI)
    fix k assume k: "Suc error_idx \<le> k \<and> k < i"
    show "(if is_resolution_line (lines ! k) then look_back lines error_idx k else None) = None"
    proof (cases "is_resolution_line (lines ! k)")
      case False
      then show ?thesis by simp
    next
      case True
      have "look_back lines error_idx k = None"
      proof (cases "look_back lines error_idx k")
        case None
        then show ?thesis .
      next
        case (Some s)
        then obtain j' where "error_idx < j'" "j' < k" "is_action_line (lines ! j')"
          unfolding look_back_Some_iff by blast
        with h(7) k True show ?thesis by blast
      qed
      with True show ?thesis by simp
    qed
  qed
  show ?L
    unfolding look_ahead_def first_some_upt
    using h(1,2,3,4) lb before by (intro exI [of _ i]) auto
qed

theorem C6_witness:
  "look_ahead (split_lines (str ''error x. y\<newline>fixed\<newline>edit_file a.py\<newline>fixed again'')) 5 0
     = Some (str ''edit_file a.py\<newline>fixed again'')"
proof -
  let ?ls = "split_lines (str ''error x. y\<newline>fixed\<newline>edit_file a.py\<newline>fixed again'')"
  have ls: "?ls = [str ''error x. y'', str ''fixed'', str ''edit_file a.py'', str ''fixed again'']"
    by code_simp
  have r3: "is_resolution_line (str ''fixed again'')" by code_simp
  have a2: "is_action_line (str ''edit_file a.py'')" by code_simp
  have a1: "\<not> is_action_line (str ''fixed'')" by code_simp
  have sn: "join_lines (slice ?ls 2 (3 + 1)) = str ''edit_file a.py\<newline>fixed again''"
    by code_simp
  have "\<exists>i j. 0 < j \<and> j < i \<and> i < min (length ?ls) (0 + 5)
        \<and> is_resolution_line (?ls ! i) \<and> is_action_line (?ls ! j)
        \<and> (\<forall>k. j < k \<and> k < i \<longrightarrow> \<not> is_action_line (?ls ! k))
        \<and> (\<forall>i' j'. 0 < j' \<and> j' < i' \<and> i' < i \<and> is_resolution_line (?ls ! i')
              \<longrightarrow> \<not> is_action_line (?ls ! j'))
        \<and> str ''edit_file a.py\<newline>fixed again'' = join_lines (slice ?ls j (i + 1))"
  proof (rule exI [of _ 3], rule exI [of _ 2], intro conjI allI impI)
    fix i' j' :: nat
    assume "0 < j' \<and> j' < i' \<and> i' < 3 \<and> is_resolution_line (?ls ! i')"
    then have "j' = 1" by simp
    then show "\<not> is_action_line (?ls ! j')" using a1 by (simp add: ls)
  qed (use r3 a2 sn in \<open>auto simp: ls\<close>)
  then show ?thesis
    using C6_scan_goes_on_after_a_resolution_line
      [of ?ls 5 0 "str ''edit_file a.py\<newline>fixed again''"] by blast
qed

text \<open>
  The claim as stated fails on a transcript whose error is in line 0: line 1 is the
  first resolution-indicating line and no line lies between it and the error, yet the
  occurrence gives the snippet of the later resolution-indicating line 3.
\<close>

theorem C6_counterexample:
  "errors_in (str ''error x. y\<newline>fixed\<newline>edit_file a.py\<newline>fixed again'') = [str ''error x. y'']
   \<and> filter (\<lambda>i. py_in (str ''error x. y'')
          (split_lines (str ''error x. y\<newline>fixed\<newline>edit_file a.py\<newline>fixed again'') ! i)) [0 ..< 4] = [0]
   \<and> is_resolution_line (split_lines (str ''error x. y\<newline>fixed\<newline>edit_file a.py\<newline>fixed again'') ! 1)
   \<and> find_solution_for_error (str ''error x. y\<newline>fixed\<newline>edit_file a.py\<newline>fixed again'')
        (str ''error x. y'') 5 = Some (str ''edit_file a.py\<newline>fixed again'')"
  by code_simp

section \<open>What the scanner reports\<close>

lemma lit_match_suffix: "lit_match eq p s = Some rest \<Longrightarrow> suffix rest s"
  by (induction eq p s rule: lit_match.induct) (auto simp: suffix_Cons split: if_splits)

lemma lit_match_exact: "lit_match (=) p s = Some rest \<longleftrightarrow> s = p @ rest"
  by (induction "(=) :: codepoint \<Rightarrow> codepoint \<Rightarrow> bool" p s rule: lit_match.induct) auto

text \<open>What each construct contributes to \<open>run\<close>.\<close>

lemma in_run_Lit: "(g, rest) \<in> set (run (Lit p) s) \<longleftrightarrow> g = [] \<and> s = p @ rest"
proof -
  have "(g, rest) \<in> set (run (Lit p) s) \<longleftrightarrow> g = [] \<and> lit_match (=) p s = Some rest"
    by (cases "lit_match (=) p s") (auto simp: run.simps)
  then show ?thesis by (simp add: lit_match_exact)
qed

lemma in_run_LitI:
  "(g, rest) \<in> set (run (LitI p) s) \<longleftrightarrow> g = [] \<and> lit_match ignorecase_eq p s = Some rest"
  by (cases "lit_match ignorecase_eq p s") (auto simp: run.simps)

lemma in_run_Set:
  "(g, rest) \<in> set (run (Set cs) s) \<longleftrightarrow> g = [] \<and> (\<exists>c. s = c # rest \<and> in_charset cs c)"
  by (cases s) (auto simp: run.simps)

lemma in_run_Many:
  "(g, rest) \<in> set (run (Many n cs) s) \<longleftrightarrow>
     g = [] \<and> (\<exists>k. n \<le> k \<and> k \<le> length (takeWhile (in_charset cs) s) \<and> rest = drop k s)"
proof -
  let ?m = "length (takeWhile (in_charset cs) s)"
  have "set (run (Many n cs) s) = (\<lambda>k. ([], drop k s)) ` set [n ..< Suc ?m]"
    by (simp only: run.simps set_map set_rev)
  moreover have "set [n ..< Suc ?m] = {k. n \<le> k \<and> k \<le> ?m}"
    by (simp only: set_upt) auto
  ultimately have "set (run (Many n cs) s) = (\<lambda>k. ([], drop k s)) ` {k. n \<le> k \<and> k \<le> ?m}"
    by simp
  then show ?thesis by blast
qed

lemma in_sequel:
  "(g, rest) \<in> set (concat (map (\<lambda>(g1, r1). map (\<lambda>(g2, r2). (g1 @ g2, r2)) (f r1)) xs)) \<longleftrightarrow>
     (\<exists>g1 r1 g2. (g1, r1) \<in> set xs \<and> (g2, rest) \<in> set (f r1) \<and> g = g1 @ g2)"
proof (induction xs)
  case Nil
  then show ?case by simp
next
  case (Cons x xs)
  obtain a b where x: "x = (a, b)" by (cases x)
  have "(g, rest) \<in> set (map (\<lambda>(g2, r2). (a @ g2, r2)) (f b)) \<longleftrightarrow>
          (\<exists>g2. (g2, rest) \<in> set (f b) \<and> g = a @ g2)"
    by (simp add: image_iff Bex_def)
  with Cons x show ?case by (simp del: set_map) blast
qed

lemma in_run_Seq:
  "(g, rest) \<in> set (run (Seq a b) s) \<longleftrightarrow>
     (\<exists>g1 r1 g2. (g1, r1) \<in> set (run a s) \<and> (g2, rest) \<in> set (run b r1) \<and> g = g1 @ g2)"
  by (simp only: run.simps in_sequel)

lemma in_run_Alt:
  "(g, rest) \<in> set (run (Alt a b) s) \<longleftrightarrow>
     (g, rest) \<in> set (run a s) \<or> (g, rest) \<in> set (run b s)"
  by (simp add: run.simps)

lemma in_run_UpTo_Suc:
  "(g, rest) \<in> set (run (UpTo (Suc n) a) s) \<longleftrightarrow>
     (g = [] \<and> rest = s)
     \<or> (\<exists>g1 r1 g2. (g1, r1) \<in> set (run a s) \<and> (g2, rest) \<in> set (run (UpTo n a) r1)
           \<and> g = g1 @ g2)"
proof -
  have "(g, rest) \<in> set (run (UpTo (Suc n) a) s) \<longleftrightarrow>
      (g, rest) \<in> set (concat (map (\<lambda>(g1, r1). map (\<lambda>(g2, r2). (g1 @ g2, r2))
                          (run (UpTo n a) r1)) (run a s)))
      \<or> (g, rest) = ([], s)"
    by (simp only: run.simps set_append Un_iff list.set insert_iff empty_iff) simp
  then show ?thesis by (simp only: in_sequel) auto
qed

lemma in_run_Group:
  "(g, rest) \<in> set (run (Group a) s) \<longleftrightarrow>
     (\<exists>g0. (g0, rest) \<in> set (run a s) \<and> g = take (length s - length rest) s # g0)"
  by (simp add: run.simps image_iff Bex_def)

lemma run_suffix: "(g, rest) \<in> set (run r s) \<Longrightarrow> suffix rest s"
proof (induction r s arbitrary: g rest rule: run.induct)
  case (1 p s)
  then show ?case by (simp add: in_run_Lit suffix_def)
next
  case (2 p s)
  then show ?case by (auto simp: in_run_LitI dest: lit_match_suffix)
next
  case (3 cs s)
  then show ?case by (auto simp: in_run_Set suffix_Cons)
next
  case (4 n cs s)
  then show ?case by (auto simp: in_run_Many suffix_drop)
next
  case (5 a b s)
  from "5.prems" obtain g1 r1 g2 where h: "(g1, r1) \<in> set (run a s)" "(g2, rest) \<in> set (run b r1)"
    unfolding in_run_Seq by blast
  from "5.IH"(1) [OF h(1)] have "suffix r1 s" .
  moreover from "5.IH"(2) [OF h(1) refl h(2)] have "suffix rest r1" .
  ultimately show ?case using suffix_order.trans by blast
next
  case (6 a b s)
  then show ?case by (auto simp: in_run_Alt)
next
  case (7 a s)
  then show ?case by (simp add: run.simps)
next
  case (8 n a s)
  show ?case
  proof (cases "g = [] \<and> rest = s")
    case True
    then show ?thesis by simp
  next
    case False
    with "8.prems" obtain g1 r1 g2 where h: "(g1, r1) \<in> set (run a s)"
      "(g2, rest) \<in> set (run (UpTo n a) r1)" unfolding in_run_UpTo_Suc by blast
    from "8.IH"(1) [OF h(1)] have "suffix r1 s" .
    moreover from "8.IH"(2) [OF h(1) refl h(2)] have "suffix rest r1" .
    ultimately show ?thesis using suffix_order.trans by blast
  qed
next
  case (9 a s)
  then show ?case by (auto simp: in_run_Group)
qed

lemma first_match_False:
  "first_match r False s = (case run r s of [] \<Rightarrow> None | m # _ \<Rightarrow> Some m)"
  by (simp add: first_match_def case_prod_unfold)

lemma first_match_None_if_no_run: "run r s = [] \<Longrightarrow> first_match r adv s = None"
  by (simp add: first_match_def)

lemma first_match_in_run: "first_match r adv s = Some m \<Longrightarrow> m \<in> set (run r s)"
proof -
  assume "first_match r adv s = Some m"
  then obtain ms where
    "filter (\<lambda>(g, rest). \<not> adv \<or> length rest < length s) (run r s) = m # ms"
    by (auto simp: first_match_def split: list.splits)
  then have "m \<in> set (filter (\<lambda>(g, rest). \<not> adv \<or> length rest < length s) (run r s))"
    by simp
  then show ?thesis by simp
qed

lemma findall_empty_iff:
  "findall r s = [] \<longleftrightarrow> (\<forall>t. suffix t s \<longrightarrow> run r t = [])"
  unfolding findall_def
proof (induction s)
  case Nil
  show ?case
    by (subst findall_from.simps) (auto simp: first_match_False split: list.splits)
next
  case (Cons c s)
  have "findall_from r False (c # s) = [] \<longleftrightarrow> run r (c # s) = [] \<and> findall_from r False s = []"
    by (subst findall_from.simps) (auto simp: first_match_False split: list.splits)
  also have "\<dots> \<longleftrightarrow> run r (c # s) = [] \<and> (\<forall>t. suffix t s \<longrightarrow> run r t = [])"
    using Cons.IH by simp
  also have "\<dots> \<longleftrightarrow> (\<forall>t. suffix t (c # s) \<longrightarrow> run r t = [])"
    by (auto simp: suffix_Cons)
  finally show ?case .
qed

text \<open>The text that \<open>findall\<close> reports for a match.\<close>

lemma findall_from_elem:
  "m \<in> set (findall_from r adv s) \<Longrightarrow>
     \<exists>t g rest. suffix t s \<and> (g, rest) \<in> set (run r t)
        \<and> m = (case g of [] \<Rightarrow> take (length t - length rest) t | x # _ \<Rightarrow> x)"
proof (induction r adv s rule: findall_from.induct)
  case (1 r must_advance s)
  show ?case
  proof (cases "first_match r must_advance s")
    case None
    show ?thesis
    proof (cases s)
      case Nil
      with None "1.prems" show ?thesis by (subst (asm) findall_from.simps) simp
    next
      case (Cons c t)
      with None "1.prems" have "m \<in> set (findall_from r False t)"
        by (subst (asm) findall_from.simps) simp
      from "1.IH"(1) [OF None Cons this] obtain t' g rest where
        "suffix t' t" "(g, rest) \<in> set (run r t')"
        "m = (case g of [] \<Rightarrow> take (length t' - length rest) t' | x # _ \<Rightarrow> x)" by blast
      with Cons show ?thesis by (auto simp: suffix_Cons)
    qed
  next
    case (Some p)
    obtain g rest where p: "p = (g, rest)" by (cases p)
    have inrun: "(g, rest) \<in> set (run r s)"
      using first_match_in_run Some p by blast
    from "1.prems" Some p have
      "m = (case g of [] \<Rightarrow> take (length s - length rest) s | x # _ \<Rightarrow> x)
       \<or> m \<in> set (if length rest < length s then findall_from r False rest
                    else findall_from r True s)"
      by (subst (asm) findall_from.simps) simp
    then show ?thesis
    proof
      assume "m = (case g of [] \<Rightarrow> take (length s - length rest) s | x # _ \<Rightarrow> x)"
      with inrun show ?thesis by (intro exI [of _ s] exI [of _ g] exI [of _ rest]) simp
    next
      assume rec: "m \<in> set (if length rest < length s then findall_from r False rest
                    else findall_from r True s)"
      show ?thesis
      proof (cases "length rest < length s")
        case True
        with rec have "m \<in> set (findall_from r False rest)" by simp
        from "1.IH"(2) [OF Some p [symmetric] True this] obtain t' g' rest' where h:
          "suffix t' rest" "(g', rest') \<in> set (run r t')"
          "m = (case g' of [] \<Rightarrow> take (length t' - length rest') t' | x # _ \<Rightarrow> x)" by blast
        have "suffix rest s" using run_suffix inrun by blast
        with h show ?thesis using suffix_order.trans by blast
      next
        case False
        with rec have "m \<in> set (findall_from r True s)" by simp
        from "1.IH"(3) [OF Some p [symmetric] False this] show ?thesis .
      qed
    qed
  qed
qed

section \<open>Frustration markers\<close>

lemma take_run_in_class:
  assumes "k \<le> length (takeWhile P s)"
  shows "\<forall>c \<in> set (take k s). P c"
proof -
  have "take k s = take k (takeWhile P s)"
    using assms by (metis takeWhile_dropWhile_id take_append append_Nil2 diff_is_0_eq take_0)
  then have "set (take k s) \<subseteq> set (takeWhile P s)"
    by (metis set_take_subset)
  then show ?thesis by (auto dest: set_takeWhileD)
qed

lemma frustration_group:
  assumes "(g, rest) \<in> set (run frustration_pattern t)"
  shows "\<exists>tok. g = [tok] \<and> prefix tok t \<and> is_bare_token tok"
proof -
  let ?A = "Alt (Many 4 caps_space_bang)
                (alts [Lit (str ''damn''), Lit (str ''shit''), Lit (str ''fuck''),
                       Lit (str ''crap'')])"
  from assms obtain g1 r1 g2 where h: "(g1, r1) \<in> set (run (Group ?A) t)"
    "(g2, rest) \<in> set (run (Many 0 not_nl_dot) r1)" "g = g1 @ g2"
    unfolding frustration_pattern_def in_run_Seq by blast
  from h(2) have g2: "g2 = []" by (simp add: in_run_Many)
  from h(1) obtain g0 where g0: "(g0, r1) \<in> set (run ?A t)"
    "g1 = take (length t - length r1) t # g0" unfolding in_run_Group by blast
  from g0(1) consider
      (caps) "(g0, r1) \<in> set (run (Many 4 caps_space_bang) t)"
    | (word) w where "w \<in> set [str ''damn'', str ''shit'', str ''fuck'', str ''crap'']"
        "(g0, r1) \<in> set (run (Lit w) t)"
    by (auto simp: in_run_Alt)
  then show ?thesis
  proof cases
    case caps
    then obtain k where k: "g0 = []" "4 \<le> k"
      "k \<le> length (takeWhile (in_charset caps_space_bang) t)" "r1 = drop k t"
      unfolding in_run_Many by blast
    have kt: "k \<le> length t"
      using k(3) length_takeWhile_le [of "in_charset caps_space_bang" t] by simp
    then have tok: "take (length t - length r1) t = take k t" using k(4) by simp
    have "is_bare_token (take k t)"
      unfolding is_bare_token_def using take_run_in_class [OF k(3)] k(2) kt by simp
    then show ?thesis
      using g0(2) k(1) g2 h(3) tok by (simp add: take_is_prefix)
  next
    case word
    then have w: "g0 = []" "t = w @ r1" unfolding in_run_Lit by simp_all
    then have tok: "take (length t - length r1) t = w" by simp
    have "is_bare_token w" unfolding is_bare_token_def using word(1) by blast
    then show ?thesis
      using g0(2) w g2 h(3) tok by simp
  qed
qed

lemma marker_is_bare_token:
  assumes "m \<in> set (frustration_in context)"
  shows "is_bare_token m \<and> py_in m context"
proof -
  from assms obtain t g rest where h: "suffix t context"
    "(g, rest) \<in> set (run frustration_pattern t)"
    "m = (case g of [] \<Rightarrow> take (length t - length rest) t | x # _ \<Rightarrow> x)"
    unfolding frustration_in_def findall_def using findall_from_elem by blast
  from frustration_group [OF h(2)] obtain tok where tok: "g = [tok]" "prefix tok t"
    "is_bare_token tok" by blast
  with h(3) have m: "m = tok" by simp
  have "sublist tok context"
    using tok(2) h(1) unfolding sublist_altdef' by blast
  with m tok(3) show ?thesis by (simp add: py_in_def)
qed

text \<open>Where the pattern matches first, and where the scan goes on.\<close>

lemma run_Lit_shape:
  "run (Lit w) s = (if prefix w s then [([], drop (length w) s)] else [])"
proof (cases "lit_match (=) w s")
  case None
  then have "\<not> prefix w s"
    using lit_match_exact [of w s] by (auto simp: prefix_def)
  with None show ?thesis by (simp add: run.simps)
next
  case (Some r)
  then have "s = w @ r" by (simp add: lit_match_exact)
  with Some show ?thesis by (simp add: run.simps)
qed

lemma run_alts_Lit:
  "ws \<noteq> [] \<Longrightarrow> run (alts (map Lit ws)) s = concat (map (\<lambda>w. run (Lit w) s) ws)"
proof (induction ws)
  case Nil
  then show ?case by simp
next
  case (Cons w ws)
  then show ?case by (cases ws) (simp_all add: run.simps(6))
qed

lemma first_of_hits:
  "(case find P ws of
      None \<Rightarrow> concat (map (\<lambda>w. if P w then [f w] else []) ws) = []
    | Some w \<Rightarrow> \<exists>ms. concat (map (\<lambda>w. if P w then [f w] else []) ws) = f w # ms)"
  by (induction ws) (auto split: option.splits)

lemma run_words:
  "(case find (\<lambda>w. prefix w s) [str ''damn'', str ''shit'', str ''fuck'', str ''crap''] of
      None \<Rightarrow>
        run (alts [Lit (str ''damn''), Lit (str ''shit''), Lit (str ''fuck''),
                   Lit (str ''crap'')]) s = []
    | Some w \<Rightarrow>
        \<exists>ms. run (alts [Lit (str ''damn''), Lit (str ''shit''), Lit (str ''fuck''),
                        Lit (str ''crap'')]) s = ([], drop (length w) s) # ms)"
proof -
  let ?ws = "[str ''damn'', str ''shit'', str ''fuck'', str ''crap'']"
  have "run (alts (map Lit ?ws)) s
      = concat (map (\<lambda>w. if prefix w s then [([], drop (length w) s)] else []) ?ws)"
    by (subst run_alts_Lit) (simp_all only: run_Lit_shape list.distinct not_False_eq_True)
  moreover have "alts (map Lit ?ws)
      = alts [Lit (str ''damn''), Lit (str ''shit''), Lit (str ''fuck''), Lit (str ''crap'')]"
    by simp
  ultimately show ?thesis
    using first_of_hits [where P = "\<lambda>w. prefix w s" and ws = ?ws
        and f = "\<lambda>w. ([], drop (length w) s)"]
    by (simp only:)
qed

lemma find_SomeD: "find P xs = Some x \<Longrightarrow> P x \<and> x \<in> set xs"
  by (induction xs) (auto split: if_splits)

lemma run_caps:
  "run (Many 4 caps_space_bang) s =
     (let k = length (takeWhile (in_charset caps_space_bang) s) in
      if 4 \<le> k then ([], drop k s) # map (\<lambda>j. ([], drop j s)) (rev [4 ..< k]) else [])"
  by (simp add: run.simps Let_def)

lemma run_tail_hd:
  "\<exists>ms. run (Many 0 not_nl_dot) r = ([], after_context r) # ms"
  by (simp add: run.simps after_context_def dropWhile_eq_drop)

lemma frustration_first:
  "first_match frustration_pattern False s =
     (case token_at s of
        None \<Rightarrow> None
      | Some tok \<Rightarrow> Some ([tok], after_context (drop (length tok) s)))"
proof -
  let ?A = "Alt (Many 4 caps_space_bang)
                (alts [Lit (str ''damn''), Lit (str ''shit''), Lit (str ''fuck''),
                       Lit (str ''crap'')])"
  let ?k = "length (takeWhile (in_charset caps_space_bang) s)"
  let ?step = "\<lambda>(g, r). map (\<lambda>(g', r'). (g @ g', r')) (run (Many 0 not_nl_dot) r)"
  have seq: "run frustration_pattern s = concat (map ?step (run (Group ?A) s))"
    by (simp add: frustration_pattern_def run.simps)
  show ?thesis
  proof (cases "token_at s")
    case None
    then have k: "\<not> 4 \<le> ?k"
      and w: "find (\<lambda>w. prefix w s) [str ''damn'', str ''shit'', str ''fuck'', str ''crap''] = None"
      by (auto simp: token_at_def Let_def split: if_splits)
    have "run ?A s = []"
      using k w run_words [of s] by (simp add: run.simps(6) run_caps Let_def)
    then have "run (Group ?A) s = []" by (simp add: run.simps)
    with seq have "run frustration_pattern s = []" by simp
    with None show ?thesis by (simp add: first_match_False)
  next
    case (Some tok)
    have "\<exists>ms. run ?A s = ([], drop (length tok) s) # ms \<and> length tok \<le> length s"
    proof (cases "4 \<le> ?k")
      case True
      with Some have tok: "tok = take ?k s" by (simp add: token_at_def Let_def)
      have "?k \<le> length s" by (rule length_takeWhile_le)
      then have "length tok = ?k" using tok by simp
      with True show ?thesis
        by (simp add: run.simps(6) run_caps Let_def length_takeWhile_le)
    next
      case False
      with Some have w: "find (\<lambda>w. prefix w s)
          [str ''damn'', str ''shit'', str ''fuck'', str ''crap''] = Some tok"
        by (simp add: token_at_def Let_def)
      then have "prefix tok s" using find_SomeD by fast
      then have "length tok \<le> length s" by (rule prefix_length_le)
      with False w run_words [of s] show ?thesis
        by (auto simp: run.simps(6) run_caps Let_def)
    qed
    then obtain ms where a: "run ?A s = ([], drop (length tok) s) # ms"
      and len: "length tok \<le> length s" by blast
    have "run (Group ?A) s
        = ([take (length s - length (drop (length tok) s)) s], drop (length tok) s)
          # map (\<lambda>(g, r). (take (length s - length r) s # g, r)) ms"
      by (simp only: run.simps(9) a) simp
    moreover have "take (length s - length (drop (length tok) s)) s = take (length tok) s"
      using len by simp
    moreover have "take (length tok) s = tok"
    proof (cases "4 \<le> ?k")
      case True
      with Some have "tok = take ?k s" by (simp add: token_at_def Let_def)
      then show ?thesis using length_takeWhile_le [of "in_charset caps_space_bang" s] by simp
    next
      case False
      with Some have "find (\<lambda>w. prefix w s)
          [str ''damn'', str ''shit'', str ''fuck'', str ''crap''] = Some tok"
        by (simp add: token_at_def Let_def)
      then have "prefix tok s" using find_SomeD by fast
      then show ?thesis by (auto simp: prefix_def)
    qed
    ultimately obtain ms' where g: "run (Group ?A) s = ([tok], drop (length tok) s) # ms'"
      by simp
    obtain ts where t: "run (Many 0 not_nl_dot) (drop (length tok) s)
        = ([], after_context (drop (length tok) s)) # ts"
      using run_tail_hd by blast
    have "\<exists>rs. run frustration_pattern s
        = ([tok], after_context (drop (length tok) s)) # rs"
      by (simp only: seq g) (simp add: t)
    with Some show ?thesis by (auto simp: first_match_False)
  qed
qed

lemma token_at_length:
  assumes "token_at s = Some tok"
  shows "0 < length tok \<and> length tok \<le> length s"
proof (cases "4 \<le> length (takeWhile (in_charset caps_space_bang) s)")
  case True
  with assms have "tok = take (length (takeWhile (in_charset caps_space_bang) s)) s"
    by (simp add: token_at_def Let_def)
  moreover have "length (takeWhile (in_charset caps_space_bang) s) \<le> length s"
    by (rule length_takeWhile_le)
  ultimately have "length tok = length (takeWhile (in_charset caps_space_bang) s)"
    by (simp add: min_def)
  with True show ?thesis
    using length_takeWhile_le [of "in_charset caps_space_bang" s] by linarith
next
  case False
  with assms have f: "find (\<lambda>w. prefix w s)
      [str ''damn'', str ''shit'', str ''fuck'', str ''crap''] = Some tok"
    by (simp add: token_at_def Let_def)
  then have "prefix tok s" using find_SomeD by fast
  moreover from f have "tok \<in> set [str ''damn'', str ''shit'', str ''fuck'', str ''crap'']"
    using find_SomeD by fast
  then have "0 < length tok" by (auto simp: str_def)
  ultimately show ?thesis using prefix_length_le by blast
qed

lemma frustration_unfold:
  "frustration_in s =
     (case token_at s of
        Some tok \<Rightarrow> tok # frustration_in (after_context (drop (length tok) s))
      | None \<Rightarrow> (case s of [] \<Rightarrow> [] | c # t \<Rightarrow> frustration_in t))"
proof (cases "token_at s")
  case None
  then show ?thesis
    unfolding frustration_in_def findall_def
    by (subst findall_from.simps) (simp add: frustration_first)
next
  case (Some tok)
  have "length (after_context (drop (length tok) s)) \<le> length (drop (length tok) s)"
    unfolding after_context_def by (rule length_dropWhile_le)
  moreover have "length (drop (length tok) s) = length s - length tok" by simp
  moreover have "0 < length tok" "length tok \<le> length s"
    using token_at_length [OF Some] by blast+
  ultimately have "length (after_context (drop (length tok) s)) < length s"
    by linarith
  with Some show ?thesis
    unfolding frustration_in_def findall_def
    by (subst findall_from.simps) (simp add: frustration_first)
qed

text \<open>
  C10, as the code has it. The pattern has one capturing group, around the trigger
  alone, so \<open>findall\<close> reports the text of that group: every recorded marker is the bare
  trigger token, a run of four or more code points among \<open>A\<close> to \<open>Z\<close>, the space and \<open>!\<close>,
  or one of the four words, and it stands in the transcript. The text up to the next
  full stop or newline is matched and left out of the marker: where a token stands the
  marker is that token, and the scan goes on only behind the context that follows it,
  so no marker starts inside that context; where no token stands the scan moves on by
  one code point.
\<close>

theorem C10_marker_is_the_bare_token:
  "(\<forall>m \<in> set (frustration_in context). is_bare_token m \<and> py_in m context)
   \<and> frustration_in context =
       (case token_at context of
          Some tok \<Rightarrow> tok # frustration_in (after_context (drop (length tok) context))
        | None \<Rightarrow> (case context of [] \<Rightarrow> [] | c # t \<Rightarrow> frustration_in t))"
  using marker_is_bare_token frustration_unfold by blast

theorem C10_witness:
  "str ''WHAT '' \<in> set (frustration_in (str ''WHAT is this. ok''))
   \<and> is_bare_token (str ''WHAT '') \<and> py_in (str ''WHAT '') (str ''WHAT is this. ok'')
   \<and> frustration_in (str ''WHAT is this. ok'') = str ''WHAT '' # frustration_in (str ''. ok'')"
proof -
  have h: "str ''WHAT '' \<in> set (frustration_in (str ''WHAT is this. ok''))"
    by code_simp
  have t: "token_at (str ''WHAT is this. ok'') = Some (str ''WHAT '')"
    by code_simp
  have a: "after_context (drop (length (str ''WHAT '')) (str ''WHAT is this. ok'')) = str ''. ok''"
    by code_simp
  from C10_marker_is_the_bare_token [of "str ''WHAT is this. ok''"] h t a
  show ?thesis by simp
qed

text \<open>
  The claim as stated fails on \<open>WHAT is this. ok\<close>: the match runs from \<open>WHAT\<close> to the
  full stop, and the marker that is recorded is the group \<open>WHAT \<close>, not the match
  \<open>WHAT is this\<close>.
\<close>

theorem C10_counterexample:
  "first_match frustration_pattern False (str ''WHAT is this. ok'')
     = Some ([str ''WHAT ''], str ''. ok'')
   \<and> frustration_in (str ''WHAT is this. ok'') = [str ''WHAT '']
   \<and> str ''WHAT is this'' \<notin> set (frustration_in (str ''WHAT is this. ok''))"
  by code_simp

section \<open>No error, no section\<close>


lemma ambiguous_prefix:
  "(p, a) \<in> set (ambiguous_in context) \<Longrightarrow> p = str ''??'' \<or> p = str ''?''"
  by (auto simp: ambiguous_in_def solution_patterns_def is_ambiguous_prefix_def
      split: if_splits)

lemma no_errors_no_console_section:
  "str ''\<newline>Outstanding Issues:''
     \<notin> set (print_summary now context solutions (ambiguous_in context) [])"
proof
  assume a: "str ''\<newline>Outstanding Issues:''
     \<in> set (print_summary now context solutions (ambiguous_in context) [])"
  have fixed: "str ''\<newline>Outstanding Issues:'' \<noteq> str ''\<newline>=== Session Summary ===\<newline>''"
    "str ''\<newline>Outstanding Issues:'' \<noteq> str ''\<newline>Completed Changes:''"
    "str ''\<newline>Outstanding Issues:'' \<noteq> str ''\<newline>In Progress/Attempted Changes:''"
    "str ''\<newline>Outstanding Issues:'' \<noteq> str ''\<newline>Next Steps:''"
    "str ''\<newline>Outstanding Issues:'' \<noteq> str ''2. Follow up on attempted changes''"
    "str ''\<newline>Outstanding Issues:'' \<noteq> str ''3. Continue with planned development tasks''"
    by (simp_all add: str_def)
  have hd: "hd (str ''\<newline>Outstanding Issues:'') = 10" by (simp add: str_def)
  have date: "str ''\<newline>Outstanding Issues:'' \<noteq> str ''Session Date: '' @ now @ str ''\<newline>''"
    by (simp add: str_def)
  have sol: "\<And>sol. str ''\<newline>Outstanding Issues:'' \<noteq> [10003, 32] @ sol"
    by (simp add: str_def)
  have amb: "\<And>p at. (p, at) \<in> set (ambiguous_in context) \<Longrightarrow>
      str ''\<newline>Outstanding Issues:'' \<noteq> p @ str '' '' @ at"
    using ambiguous_prefix by (fastforce simp: str_def)
  from a fixed date sol amb show False
    by (auto simp: print_summary_def split: if_splits)
qed

lemma command_section_not_heading:
  assumes "hd title \<noteq> 10"
  shows "str ''\<newline>### Outstanding Issues\<newline>'' \<notin> set (command_section title result)"
  using assms by (auto simp: command_section_def str_def split: sum.splits)

lemma no_errors_no_snapshot_section:
  "str ''\<newline>### Outstanding Issues\<newline>''
     \<notin> set (write_summary w now context solutions (ambiguous_in context) [])"
proof
  let ?h = "str ''\<newline>### Outstanding Issues\<newline>''"
  assume a: "?h \<in> set (write_summary w now context solutions (ambiguous_in context) [])"
  have fixed: "?h \<noteq> str ''# Last Session Summary\<newline>\<newline>''"
    "?h \<noteq> str ''## Session Overview\<newline>''"
    "?h \<noteq> str ''\<newline>### Completed Changes\<newline>''"
    "?h \<noteq> str ''\<newline>### In Progress/Attempted Changes\<newline>''"
    "?h \<noteq> str ''\<newline>## Next Steps\<newline>''"
    "?h \<noteq> str ''2. Follow up on attempted changes\<newline>''"
    "?h \<noteq> str ''3. Continue with planned development tasks\<newline>''"
    by (simp_all add: str_def)
  have date: "?h \<noteq> str ''Session Date: '' @ now @ str ''\<newline>\<newline>''"
    by (simp add: str_def)
  have item: "\<And>x. ?h \<noteq> str ''- '' @ x" by (simp add: str_def)
  have cmd: "?h \<notin> set (command_section (str ''## Files Changed\<newline>'') (git_diff w))"
    "?h \<notin> set (command_section (str ''## Project Structure\<newline>'') (tree w))"
    by (rule command_section_not_heading, simp add: str_def)+
  from a fixed date item cmd show False
    by (auto simp: write_summary_def split: if_splits)
qed








lemma ends_NL_I: "x = y @ str ''\<newline>'' \<Longrightarrow> \<exists>z. x = z @ [NL]"
  by (simp add: str_def NL_def)








section \<open>Two ways of ignoring case\<close>

lemma lower_append: "lower (u @ t) = lower u @ lower t"
  by (simp add: lower_def)

lemma lower_Cons: "lower (c # l) = lower_cp c @ lower l"
  by (simp add: lower_def)

text \<open>A pattern character is plain when it is a lowercase ASCII letter or the space.\<close>

lemma fold_of_lower:
  assumes "a = 32 \<or> (97 \<le> a \<and> a \<le> 122)" and "lower_cp c = [a]"
  shows "ignorecase_eq a c"
  using assms by (auto simp: lower_cp_def ignorecase_eq_def split: if_splits)

lemma lower_of_fold:
  assumes "a = 32 \<or> (97 \<le> a \<and> a \<le> 122)" and "ignorecase_eq a c"
    and "c \<noteq> 304" "c \<noteq> 305" "c \<noteq> 383"
  shows "lower_cp c = [a]"
  using assms by (auto simp: lower_cp_def ignorecase_eq_def)

lemma lower_cp_shape: "(\<exists>x. lower_cp c = [x]) \<or> (c = 304 \<and> lower_cp c = [105, 775])"
  by (simp add: lower_cp_def)

lemma prefix_lower_matches:
  assumes "\<forall>a \<in> set p. a = 32 \<or> (97 \<le> a \<and> a \<le> 122)" and "prefix p (lower t)"
  shows "\<exists>rest. lit_match ignorecase_eq p t = Some rest"
  using assms
proof (induction p arbitrary: t)
  case Nil
  then show ?case by simp
next
  case (Cons a ps)
  from Cons.prems(2) have "lower t \<noteq> []" by auto
  then obtain c l where t: "t = c # l" by (cases t) (auto simp: lower_def)
  have plain_a: "a = 32 \<or> (97 \<le> a \<and> a \<le> 122)" using Cons.prems(1) by simp
  have plain_ps: "\<forall>a \<in> set ps. a = 32 \<or> (97 \<le> a \<and> a \<le> 122)" using Cons.prems(1) by simp
  from lower_cp_shape [of c] show ?case
  proof
    assume "\<exists>x. lower_cp c = [x]"
    then obtain x where x: "lower_cp c = [x]" by blast
    with Cons.prems(2) t have "a = x" and ps: "prefix ps (lower l)"
      by (simp_all add: lower_Cons)
    with x plain_a have "ignorecase_eq a c" using fold_of_lower by blast
    moreover from Cons.IH [OF plain_ps ps] obtain rest where
      "lit_match ignorecase_eq ps l = Some rest" by blast
    ultimately show ?thesis using t by simp
  next
    assume c: "c = 304 \<and> lower_cp c = [105, 775]"
    then have lc: "lower_cp c = [105, 775]" by (rule conjunct2)
    from Cons.prems(2) t have a: "a = 105" and ps: "prefix ps (775 # lower l)"
      by (simp_all add: lower_Cons lc)
    have "ps = []"
    proof (cases ps)
      case Nil
      then show ?thesis .
    next
      case (Cons b bs)
      with ps have "b = 775" by simp
      with Cons plain_ps show ?thesis by simp
    qed
    with a c t show ?thesis by (simp add: ignorecase_eq_def)
  qed
qed

lemma sublist_lower_matches:
  assumes "\<forall>a \<in> set p. a = 32 \<or> (97 \<le> a \<and> a \<le> 122)" and "p \<noteq> []"
    and "sublist p (lower line)"
  shows "\<exists>t rest. suffix t line \<and> lit_match ignorecase_eq p t = Some rest"
  using assms(3)
proof (induction line)
  case Nil
  with assms(2) show ?case by (simp add: lower_def)
next
  case (Cons c l)
  obtain a ps where p: "p = a # ps" using assms(2) by (cases p) auto
  have plain_a: "a = 32 \<or> (97 \<le> a \<and> a \<le> 122)" using assms(1) p by simp
  have later: "sublist p (lower l) \<Longrightarrow> ?case"
  proof -
    assume "sublist p (lower l)"
    from Cons.IH [OF this] obtain t rest where
      "suffix t l" "lit_match ignorecase_eq p t = Some rest" by blast
    then show ?case by (auto simp: suffix_Cons)
  qed
  have here: "prefix p (lower (c # l)) \<Longrightarrow> ?case"
  proof -
    assume "prefix p (lower (c # l))"
    from prefix_lower_matches [OF assms(1) this] obtain rest where
      "lit_match ignorecase_eq p (c # l) = Some rest" by blast
    then show ?case by (intro exI [of _ "c # l"] exI [of _ rest]) simp
  qed
  from lower_cp_shape [of c] show ?case
  proof
    assume "\<exists>x. lower_cp c = [x]"
    then obtain x where x: "lower_cp c = [x]" by blast
    with Cons.prems have "prefix p (lower (c # l)) \<or> sublist p (lower l)"
      by (simp add: lower_Cons sublist_Cons_right)
    then show ?thesis using here later by blast
  next
    assume c: "c = 304 \<and> lower_cp c = [105, 775]"
    then have lc: "lower_cp c = [105, 775]" by (rule conjunct2)
    from Cons.prems have "prefix p (lower (c # l)) \<or> sublist p (775 # lower l)"
      by (simp add: lower_Cons lc sublist_Cons_right)
    moreover have "sublist p (775 # lower l) \<Longrightarrow> sublist p (lower l)"
    proof -
      assume "sublist p (775 # lower l)"
      then have "prefix p (775 # lower l) \<or> sublist p (lower l)"
        by (simp add: sublist_Cons_right)
      moreover have "\<not> prefix p (775 # lower l)" using p plain_a by auto
      ultimately show "sublist p (lower l)" by blast
    qed
    ultimately show ?thesis using here later by blast
  qed
qed

lemma match_gives_prefix_lower:
  assumes "\<forall>a \<in> set p. a = 32 \<or> (97 \<le> a \<and> a \<le> 122)"
    and "304 \<notin> set t" "305 \<notin> set t" "383 \<notin> set t"
    and "lit_match ignorecase_eq p t = Some rest"
  shows "prefix p (lower t)"
  using assms
proof (induction p arbitrary: t)
  case Nil
  then show ?case by simp
next
  case (Cons a ps)
  from Cons.prems(5) obtain c l where t: "t = c # l" by (cases t) auto
  with Cons.prems(5) have fold: "ignorecase_eq a c"
    and m: "lit_match ignorecase_eq ps l = Some rest"
    by (auto split: if_splits)
  have "lower_cp c = [a]"
    using lower_of_fold [of a c] fold Cons.prems(1-4) t by auto
  moreover have "prefix ps (lower l)"
    using Cons.IH [of l] Cons.prems(1-4) t m by auto
  ultimately show ?case using t by (simp add: lower_Cons)
qed

text \<open>When the solved pattern matches at the start of a text.\<close>

lemma two_more_matches: "\<exists>m. m \<in> set (run two_more r)"
proof -
  have "([], r) \<in> set (run (Many 0 not_nl_dot) r)"
    by (simp add: in_run_Many) (rule exI [of _ 0], simp)
  moreover have "([], r) \<in> set (run (UpTo 2 (Seq (Set nl_dot) (Many 0 not_nl_dot))) r)"
    by (simp add: numeral_2_eq_2 in_run_UpTo_Suc)
  ultimately have "([] @ [], r) \<in> set (run two_more r)"
    unfolding two_more_def in_run_Seq by blast
  then show ?thesis by blast
qed

lemma solved_pattern_eq: "fst (hd solution_patterns) = Seq solved_vocabulary two_more"
  by (simp add: solution_patterns_def)

lemma solved_run_iff:
  "run (Seq solved_vocabulary two_more) t \<noteq> [] \<longleftrightarrow>
     (\<exists>p \<in> set [str ''that worked'', str ''fixed'', str ''solved''].
        \<exists>rest. lit_match ignorecase_eq p t = Some rest)"
proof -
  have "run (Seq solved_vocabulary two_more) t \<noteq> [] \<longleftrightarrow>
      (\<exists>g rest. (g, rest) \<in> set (run (Seq solved_vocabulary two_more) t))"
    by (cases "run (Seq solved_vocabulary two_more) t") auto
  also have "\<dots> \<longleftrightarrow> (\<exists>g1 r1. (g1, r1) \<in> set (run solved_vocabulary t))"
    unfolding in_run_Seq using two_more_matches by (metis prod.collapse)
  also have "\<dots> \<longleftrightarrow> (\<exists>p \<in> set [str ''that worked'', str ''fixed'', str ''solved''].
        \<exists>rest. lit_match ignorecase_eq p t = Some rest)"
    by (auto simp: solved_vocabulary_def in_run_Alt in_run_LitI)
  finally show ?thesis .
qed

lemma solved_findall_iff:
  "findall (fst (hd solution_patterns)) line \<noteq> [] \<longleftrightarrow>
     (\<exists>t. suffix t line \<and>
        (\<exists>p \<in> set [str ''that worked'', str ''fixed'', str ''solved''].
           \<exists>rest. lit_match ignorecase_eq p t = Some rest))"
  unfolding solved_pattern_eq findall_empty_iff [of "Seq solved_vocabulary two_more" line]
  using solved_run_iff by blast

lemma phrases_plain:
  "\<forall>p \<in> set [str ''that worked'', str ''fixed'', str ''solved''].
     p \<noteq> [] \<and> (\<forall>a \<in> set p. a = 32 \<or> (97 \<le> a \<and> a \<le> 122))"
  by (simp add: str_def)

lemma resolution_line_iff:
  "is_resolution_line line \<longleftrightarrow>
     (\<exists>p \<in> set [str ''that worked'', str ''fixed'', str ''solved'']. sublist p (lower line))"
proof -
  have a: "sublist (str ''solved'') (str ''resolved'')"
    by (simp add: str_def sublist_code prefix_code)
  have "sublist (str ''resolved'') (lower line) \<Longrightarrow> sublist (str ''solved'') (lower line)"
  proof -
    assume "sublist (str ''resolved'') (lower line)"
    then obtain ps ss where 1: "lower line = ps @ str ''resolved'' @ ss"
      unfolding sublist_def by blast
    from a obtain qs ts where 2: "str ''resolved'' = qs @ str ''solved'' @ ts"
      unfolding sublist_def by blast
    have "lower line = (ps @ qs) @ str ''solved'' @ (ts @ ss)"
      by (simp add: 1 2 [symmetric])
    then show ?thesis unfolding sublist_def by blast
  qed
  then show ?thesis
    by (auto simp: is_resolution_line_def resolution_phrases_def py_in_def)
qed

text \<open>
  C7, as the code has it. A line that the correlator takes as resolved is always
  matched by the solved pattern: \<open>resolved\<close> contains \<open>solved\<close>, and \<open>re.I\<close> accepts
  whatever \<open>lower()\<close> maps onto a pattern letter. The converse holds for every line
  that has none of the code points U+0130, U+0131 and U+017F, which \<open>re.I\<close> folds onto
  \<open>i\<close>, \<open>i\<close> and \<open>s\<close> and \<open>lower()\<close> does not.
\<close>

theorem C7_resolution_line_and_solved_pattern:
  "(is_resolution_line line \<longrightarrow> findall (fst (hd solution_patterns)) line \<noteq> [])
   \<and> (304 \<notin> set line \<and> 305 \<notin> set line \<and> 383 \<notin> set line \<longrightarrow>
        (is_resolution_line line \<longleftrightarrow> findall (fst (hd solution_patterns)) line \<noteq> []))"
proof -
  have forth: "findall (fst (hd solution_patterns)) line \<noteq> []" if "is_resolution_line line"
  proof -
    from that obtain p where p: "p \<in> set [str ''that worked'', str ''fixed'', str ''solved'']"
      "sublist p (lower line)" unfolding resolution_line_iff by blast
    with phrases_plain have "p \<noteq> []" "\<forall>a \<in> set p. a = 32 \<or> (97 \<le> a \<and> a \<le> 122)"
      by blast+
    from sublist_lower_matches [OF this(2) this(1) p(2)] obtain t rest where
      "suffix t line" "lit_match ignorecase_eq p t = Some rest" by blast
    with p(1) show ?thesis unfolding solved_findall_iff by blast
  qed
  have backw: "is_resolution_line line"
    if m: "findall (fst (hd solution_patterns)) line \<noteq> []"
      and n: "304 \<notin> set line" "305 \<notin> set line" "383 \<notin> set line"
  proof -
    from m obtain t p rest where h: "suffix t line"
      "p \<in> set [str ''that worked'', str ''fixed'', str ''solved'']"
      "lit_match ignorecase_eq p t = Some rest"
      unfolding solved_findall_iff by blast
    from h(1) obtain u where u: "line = u @ t" unfolding suffix_def by blast
    with n have nt: "304 \<notin> set t" "305 \<notin> set t" "383 \<notin> set t" by simp_all
    from h(2) phrases_plain have "\<forall>a \<in> set p. a = 32 \<or> (97 \<le> a \<and> a \<le> 122)" by blast
    from match_gives_prefix_lower [OF this nt h(3)] have "prefix p (lower t)" .
    then obtain v where "lower t = p @ v" unfolding prefix_def by blast
    then have "lower line = lower u @ p @ v" by (simp add: u lower_append)
    then have "sublist p (lower line)" unfolding sublist_def by blast
    with h(2) show ?thesis unfolding resolution_line_iff by blast
  qed
  from forth backw show ?thesis by blast
qed

theorem C7_witness:
  "is_resolution_line (str ''Now it is RESOLVED'')
   \<and> 304 \<notin> set (str ''Now it is RESOLVED'') \<and> 305 \<notin> set (str ''Now it is RESOLVED'')
   \<and> 383 \<notin> set (str ''Now it is RESOLVED'')
   \<and> findall (fst (hd solution_patterns)) (str ''Now it is RESOLVED'') \<noteq> []"
proof -
  have h: "is_resolution_line (str ''Now it is RESOLVED'')" by code_simp
  have n: "304 \<notin> set (str ''Now it is RESOLVED'') \<and> 305 \<notin> set (str ''Now it is RESOLVED'')
     \<and> 383 \<notin> set (str ''Now it is RESOLVED'')" by (simp add: str_def)
  from C7_resolution_line_and_solved_pattern [of "str ''Now it is RESOLVED''"] h n
  show ?thesis by blast
qed

text \<open>
  The claim as stated fails on the line made of U+017F (the long s) and \<open>olved\<close>: the
  solved pattern matches it under \<open>re.I\<close>, and its \<open>lower()\<close> contains none of the four
  phrases.
\<close>

theorem C7_counterexample:
  "findall (fst (hd solution_patterns)) (383 # str ''olved'') = [383 # str ''olved'']
   \<and> \<not> is_resolution_line (383 # str ''olved'')"
  by code_simp

end
